theory Spec2Isabelle
  imports Complex_Main "HOL-Library.While_Combinator" "HOL-Library.Word"
begin

section \<open>Data model of the numerics kernels (core/_ext/numerics.pyx)\<close>

text \<open>
  The kernels work on numpy arrays whose sizes are passed next to them (\<open>N\<close>, \<open>E\<close>,
  \<open>m\<close>, \<open>n\<close>).  A two-dimensional array is modelled as a function of its two indices and
  a node-indexed vector as a function of the node id.  Indices and node ids are C
  integers (\<open>NODE_t\<close>, \<open>int\<close>); where a kernel only reads them, compares them and counts
  up in a loop they are modelled as \<open>int\<close>.  \<open>NODE_t\<close> is the C type \<open>int\<close> (the module
  hands \<open>NODE_t\<close> buffers to C functions as \<open>int*\<close>), 32 bits wide: the one product of
  \<open>NODE_t\<close> values, in \<open>_local_cliquishness_4thorder\<close>, is modelled on \<open>32 word\<close>, where
  it wraps as the machine multiplication does.  The node lists \<open>nodes1\<close>,
  \<open>nodes2\<close>, whose length the kernels take with \<open>len\<close>, are lists, and so is the
  vector that \<open>_mpi_newman_betweenness\<close> allocates and returns.  The theorems state as
  hypotheses that the indices a kernel uses lie inside its arrays.

  \<open>ADJ_t\<close> entries are integers; the kernels test them either for truth (non-zero) or
  against the constants 0 and 1, as written in each definition.  The floating point
  types \<open>DFIELD_t\<close>, \<open>DWEIGHT_t\<close>, \<open>FIELD_t\<close> are idealised as \<open>real\<close>.
  Division in Cython raises \<open>ZeroDivisionError\<close> on a zero divisor, and a read of an
  array buffer outside its shape raises \<open>IndexError\<close> (the module sets no compiler
  directive, so \<open>cdivision\<close> is off, \<open>boundscheck\<close> and \<open>wraparound\<close> are on).

  The rewiring kernels draw random numbers.  Their models take the sequence of the
  numbers drawn as an argument, so that a statement about every call is a statement
  about every such sequence.
\<close>

type_synonym adj = "int \<Rightarrow> int \<Rightarrow> int"
type_synonym nodevec = "int \<Rightarrow> int"
type_synonym weights = "int \<Rightarrow> real"

datatype py_error = ZeroDivisionError | ValueError | TypeError | IndexError

text \<open>Python's \<open>range(a, b)\<close> over C integers.\<close>

definition py_range :: "int \<Rightarrow> int \<Rightarrow> int list" where
  "py_range a b = [a..b - 1]"

text \<open>A \<open>for\<close> loop whose body may raise: the first error ends the loop.\<close>

fun for_loop :: "('a \<Rightarrow> 's \<Rightarrow> py_error + 's) \<Rightarrow> 'a list \<Rightarrow> 's \<Rightarrow> py_error + 's" where
  "for_loop body [] s = Inr s"
| "for_loop body (x # xs) s =
     (case body x s of Inl e \<Rightarrow> Inl e | Inr s' \<Rightarrow> for_loop body xs s')"

section \<open>Cross transitivity\<close>

text \<open>
  \<open>_cross_transitivity\<close>: the innermost loop \<open>for k in range(j)\<close>, the loop
  \<open>for j in range(n)\<close>, the loop \<open>for i in range(m)\<close>, and the final guarded division.
  The pair carried through the loops is \<open>(triangles, triples)\<close>.
\<close>

definition cross_transitivity_k ::
  "adj \<Rightarrow> int list \<Rightarrow> int \<Rightarrow> int \<Rightarrow> nat \<Rightarrow> int \<times> int \<Rightarrow> int \<times> int" where
  "cross_transitivity_k A nodes2 n1 n2 k = (\<lambda>(triangles, triples).
     let n3 = nodes2 ! k;
         triples' = (if A n1 n3 \<noteq> 0 then triples + 1 else triples);
         triangles' = (if A n2 n3 \<noteq> 0 \<and> A n3 n1 \<noteq> 0 then triangles + 1 else triangles)
     in (triangles', triples'))"

definition cross_transitivity_j ::
  "adj \<Rightarrow> int list \<Rightarrow> int \<Rightarrow> nat \<Rightarrow> int \<times> int \<Rightarrow> int \<times> int" where
  "cross_transitivity_j A nodes2 n1 j acc =
     (let n2 = nodes2 ! j in
      if A n1 n2 \<noteq> 0 then fold (cross_transitivity_k A nodes2 n1 n2) [0..<j] acc
      else acc)"

definition cross_transitivity_i ::
  "adj \<Rightarrow> int list \<Rightarrow> int list \<Rightarrow> nat \<Rightarrow> int \<times> int \<Rightarrow> int \<times> int" where
  "cross_transitivity_i A nodes1 nodes2 i acc =
     (let n1 = nodes1 ! i in
      fold (cross_transitivity_j A nodes2 n1) [0..<length nodes2] acc)"

definition cross_counts :: "adj \<Rightarrow> int list \<Rightarrow> int list \<Rightarrow> int \<times> int" where
  "cross_counts A nodes1 nodes2 =
     fold (cross_transitivity_i A nodes1 nodes2) [0..<length nodes1] (0, 0)"

definition cross_transitivity :: "adj \<Rightarrow> int list \<Rightarrow> int list \<Rightarrow> py_error + real" where
  "cross_transitivity A nodes1 nodes2 =
     (case cross_counts A nodes1 nodes2 of (triangles, triples) \<Rightarrow>
        if triples \<noteq> 0 then Inr (real_of_int triangles / real_of_int triples)
        else Inr 0)"

text \<open>
  \<open>_nsi_cross_transitivity\<close>: the loops over \<open>q\<close>, \<open>p\<close>, \<open>v\<close> carry \<open>(T1, T2)\<close>;
  the function ends with the unguarded division \<open>T1 / T2\<close>.
\<close>

definition nsi_cross_transitivity_q ::
  "adj \<Rightarrow> int list \<Rightarrow> weights \<Rightarrow> int \<Rightarrow> int \<Rightarrow> real \<Rightarrow> real \<Rightarrow> nat
     \<Rightarrow> real \<times> real \<Rightarrow> real \<times> real" where
  "nsi_cross_transitivity_q A nodes2 node_weights node_v node_p weight_v weight_p q =
     (\<lambda>(T1, T2).
        let node_q = nodes2 ! q in
        if A node_v node_q \<noteq> 0 then
          (let pqv = 2 * weight_p * node_weights node_q * weight_v;
               T2' = T2 + pqv;
               T1' = (if A node_p node_q \<noteq> 0 then T1 + pqv else T1)
           in (T1', T2'))
        else (T1, T2))"

definition nsi_cross_transitivity_p ::
  "adj \<Rightarrow> int list \<Rightarrow> weights \<Rightarrow> int \<Rightarrow> real \<Rightarrow> nat \<Rightarrow> real \<times> real \<Rightarrow> real \<times> real" where
  "nsi_cross_transitivity_p A nodes2 node_weights node_v weight_v p = (\<lambda>(T1, T2).
     let node_p = nodes2 ! p in
     if A node_v node_p \<noteq> 0 then
       (let weight_p = node_weights node_p;
            ppv = weight_p * weight_p * weight_v
        in fold (nsi_cross_transitivity_q A nodes2 node_weights node_v node_p weight_v weight_p)
             [p + 1..<length nodes2] (T1 + ppv, T2 + ppv))
     else (T1, T2))"

definition nsi_cross_transitivity_v ::
  "adj \<Rightarrow> int list \<Rightarrow> int list \<Rightarrow> weights \<Rightarrow> nat \<Rightarrow> real \<times> real \<Rightarrow> real \<times> real" where
  "nsi_cross_transitivity_v A nodes1 nodes2 node_weights v acc =
     (let node_v = nodes1 ! v;
          weight_v = node_weights node_v
      in fold (nsi_cross_transitivity_p A nodes2 node_weights node_v weight_v)
           [0..<length nodes2] acc)"

definition nsi_cross_sums :: "adj \<Rightarrow> int list \<Rightarrow> int list \<Rightarrow> weights \<Rightarrow> real \<times> real" where
  "nsi_cross_sums A nodes1 nodes2 node_weights =
     fold (nsi_cross_transitivity_v A nodes1 nodes2 node_weights) [0..<length nodes1] (0, 0)"

definition nsi_cross_transitivity ::
  "adj \<Rightarrow> int list \<Rightarrow> int list \<Rightarrow> weights \<Rightarrow> py_error + real" where
  "nsi_cross_transitivity A nodes1 nodes2 node_weights =
     (case nsi_cross_sums A nodes1 nodes2 node_weights of (T1, T2) \<Rightarrow>
        if T2 = 0 then Inl ZeroDivisionError else Inr (T1 / T2))"


text \<open>
  The number of cross links, counted over index pairs, and three small graphs used as
  concrete inputs: one cross link, an open wedge with centre 0, and a one-way entry.
\<close>

definition cross_link_count :: "adj \<Rightarrow> int list \<Rightarrow> int list \<Rightarrow> int" where
  "cross_link_count A nodes1 nodes2 =
     (\<Sum>i = 0..<length nodes1. \<Sum>j = 0..<length nodes2. of_bool (A (nodes1 ! i) (nodes2 ! j) \<noteq> 0))"

definition single_link :: adj where
  "single_link i j = (if (i = 0 \<and> j = 1) \<or> (i = 1 \<and> j = 0) then 1 else 0)"

definition open_wedge :: adj where
  "open_wedge i j = (if (i = 0 \<and> (j = 1 \<or> j = 2)) \<or> (j = 0 \<and> (i = 1 \<or> i = 2)) then 1 else 0)"

definition one_way_link :: adj where
  "one_way_link i j = (if i = 0 \<and> j = 1 then 1 else 0)"


section \<open>Cross transitivity on buffers with a shape\<close>

text \<open>
  The two kernels take their arrays as typed buffers, \<open>ndarray[ADJ_t, ndim=2] A\<close> and
  \<open>ndarray[DWEIGHT_t, ndim=1] node_weights\<close>: the element type and the number of
  dimensions are fixed by the signature, the shape is whatever the caller passes.
  Here a buffer is its shape together with its cells, and a read goes through the
  index check that Cython compiles in: a negative index is counted from the end, and
  an index that is then still outside the shape raises \<open>IndexError\<close>.  The reads
  \<open>nodes1[i]\<close>, \<open>nodes2[j]\<close> are inside \<open>range(len(...))\<close> and stay list accesses.
\<close>

record matrix =
  shape0 :: int
  shape1 :: int
  data :: "int \<Rightarrow> int \<Rightarrow> int"

record vector =
  len :: int
  item :: "int \<Rightarrow> real"

definition buffer_index :: "int \<Rightarrow> int \<Rightarrow> int option" where
  "buffer_index i n =
     (let i' = (if i < 0 then i + n else i)
      in if 0 \<le> i' \<and> i' < n then Some i' else None)"

definition getitem2 :: "matrix \<Rightarrow> int \<Rightarrow> int \<Rightarrow> py_error + int" where
  "getitem2 A i j =
     (case (buffer_index i (shape0 A), buffer_index j (shape1 A)) of
        (Some i', Some j') \<Rightarrow> Inr (data A i' j')
      | _ \<Rightarrow> Inl IndexError)"

definition getitem1 :: "vector \<Rightarrow> int \<Rightarrow> py_error + real" where
  "getitem1 w i =
     (case buffer_index i (len w) of Some i' \<Rightarrow> Inr (item w i') | None \<Rightarrow> Inl IndexError)"

text \<open>
  \<open>_cross_transitivity\<close>, loop by loop as before, every read of \<open>A\<close> checked.  In
  \<open>A[n2, n3] and A[n3, n1]\<close> the second cell is read only when the first is non-zero.
\<close>

definition cross_transitivity_k_checked ::
  "matrix \<Rightarrow> int list \<Rightarrow> int \<Rightarrow> int \<Rightarrow> nat \<Rightarrow> int \<times> int \<Rightarrow> py_error + int \<times> int" where
  "cross_transitivity_k_checked A nodes2 n1 n2 k = (\<lambda>(triangles, triples).
     let n3 = nodes2 ! k in
     case getitem2 A n1 n3 of
       Inl e \<Rightarrow> Inl e
     | Inr a13 \<Rightarrow>
         (let triples' = (if a13 \<noteq> 0 then triples + 1 else triples) in
          case getitem2 A n2 n3 of
            Inl e \<Rightarrow> Inl e
          | Inr a23 \<Rightarrow>
              if a23 \<noteq> 0 then
                (case getitem2 A n3 n1 of
                   Inl e \<Rightarrow> Inl e
                 | Inr a31 \<Rightarrow>
                     Inr (if a31 \<noteq> 0 then triangles + 1 else triangles, triples'))
              else Inr (triangles, triples')))"

definition cross_transitivity_j_checked ::
  "matrix \<Rightarrow> int list \<Rightarrow> int \<Rightarrow> nat \<Rightarrow> int \<times> int \<Rightarrow> py_error + int \<times> int" where
  "cross_transitivity_j_checked A nodes2 n1 j acc =
     (let n2 = nodes2 ! j in
      case getitem2 A n1 n2 of
        Inl e \<Rightarrow> Inl e
      | Inr a12 \<Rightarrow>
          if a12 \<noteq> 0 then for_loop (cross_transitivity_k_checked A nodes2 n1 n2) [0..<j] acc
          else Inr acc)"

definition cross_transitivity_i_checked ::
  "matrix \<Rightarrow> int list \<Rightarrow> int list \<Rightarrow> nat \<Rightarrow> int \<times> int \<Rightarrow> py_error + int \<times> int" where
  "cross_transitivity_i_checked A nodes1 nodes2 i acc =
     (let n1 = nodes1 ! i in
      for_loop (cross_transitivity_j_checked A nodes2 n1) [0..<length nodes2] acc)"

definition cross_transitivity_checked :: "matrix \<Rightarrow> int list \<Rightarrow> int list \<Rightarrow> py_error + real" where
  "cross_transitivity_checked A nodes1 nodes2 =
     (case for_loop (cross_transitivity_i_checked A nodes1 nodes2) [0..<length nodes1] (0, 0) of
        Inl e \<Rightarrow> Inl e
      | Inr (triangles, triples) \<Rightarrow>
          if triples \<noteq> 0 then Inr (real_of_int triangles / real_of_int triples)
          else Inr 0)"

text \<open>
  \<open>_nsi_cross_transitivity\<close>, every read of \<open>A\<close> and of \<open>node_weights\<close> checked, in the
  order of the source: \<open>node_weights[node_q]\<close> is read before \<open>A[node_p, node_q]\<close>.
\<close>

definition nsi_cross_transitivity_q_checked ::
  "matrix \<Rightarrow> int list \<Rightarrow> vector \<Rightarrow> int \<Rightarrow> int \<Rightarrow> real \<Rightarrow> real \<Rightarrow> nat
     \<Rightarrow> real \<times> real \<Rightarrow> py_error + real \<times> real" where
  "nsi_cross_transitivity_q_checked A nodes2 node_weights node_v node_p weight_v weight_p q =
     (\<lambda>(T1, T2).
        let node_q = nodes2 ! q in
        case getitem2 A node_v node_q of
          Inl e \<Rightarrow> Inl e
        | Inr avq \<Rightarrow>
            if avq \<noteq> 0 then
              (case getitem1 node_weights node_q of
                 Inl e \<Rightarrow> Inl e
               | Inr weight_q \<Rightarrow>
                   (let pqv = 2 * weight_p * weight_q * weight_v;
                        T2' = T2 + pqv
                    in case getitem2 A node_p node_q of
                         Inl e \<Rightarrow> Inl e
                       | Inr apq \<Rightarrow> Inr (if apq \<noteq> 0 then T1 + pqv else T1, T2')))
            else Inr (T1, T2))"

definition nsi_cross_transitivity_p_checked ::
  "matrix \<Rightarrow> int list \<Rightarrow> vector \<Rightarrow> int \<Rightarrow> real \<Rightarrow> nat \<Rightarrow> real \<times> real
     \<Rightarrow> py_error + real \<times> real" where
  "nsi_cross_transitivity_p_checked A nodes2 node_weights node_v weight_v p = (\<lambda>(T1, T2).
     let node_p = nodes2 ! p in
     case getitem2 A node_v node_p of
       Inl e \<Rightarrow> Inl e
     | Inr avp \<Rightarrow>
         if avp \<noteq> 0 then
           (case getitem1 node_weights node_p of
              Inl e \<Rightarrow> Inl e
            | Inr weight_p \<Rightarrow>
                (let ppv = weight_p * weight_p * weight_v
                 in for_loop
                      (nsi_cross_transitivity_q_checked A nodes2 node_weights node_v node_p
                         weight_v weight_p)
                      [p + 1..<length nodes2] (T1 + ppv, T2 + ppv)))
         else Inr (T1, T2))"

definition nsi_cross_transitivity_v_checked ::
  "matrix \<Rightarrow> int list \<Rightarrow> int list \<Rightarrow> vector \<Rightarrow> nat \<Rightarrow> real \<times> real
     \<Rightarrow> py_error + real \<times> real" where
  "nsi_cross_transitivity_v_checked A nodes1 nodes2 node_weights v acc =
     (let node_v = nodes1 ! v in
      case getitem1 node_weights node_v of
        Inl e \<Rightarrow> Inl e
      | Inr weight_v \<Rightarrow>
          for_loop (nsi_cross_transitivity_p_checked A nodes2 node_weights node_v weight_v)
            [0..<length nodes2] acc)"

definition nsi_cross_transitivity_checked ::
  "matrix \<Rightarrow> int list \<Rightarrow> int list \<Rightarrow> vector \<Rightarrow> py_error + real" where
  "nsi_cross_transitivity_checked A nodes1 nodes2 node_weights =
     (case for_loop (nsi_cross_transitivity_v_checked A nodes1 nodes2 node_weights)
             [0..<length nodes1] (0, 0) of
        Inl e \<Rightarrow> Inl e
      | Inr (T1, T2) \<Rightarrow> if T2 = 0 then Inl ZeroDivisionError else Inr (T1 / T2))"

text \<open>
  What the two kernels return, written as sums over index triples.  A triple is a
  cross link \<open>(i, j)\<close> with an earlier \<open>k < j\<close> such that \<open>A[n1, n3]\<close> is set; it is a
  triangle when \<open>A[n2, n3]\<close> and \<open>A[n3, n1]\<close> are set.  The cells are read in the
  direction written, so the sums make sense for a matrix that is not symmetric.
  \<open>T1\<close> and \<open>T2\<close> are the weighted sums of the node-weighted kernel.
\<close>

definition triangle_sum :: "adj \<Rightarrow> int list \<Rightarrow> int list \<Rightarrow> int" where
  "triangle_sum A nodes1 nodes2 =
     (\<Sum>i = 0..<length nodes1. \<Sum>j = 0..<length nodes2.
        of_bool (A (nodes1 ! i) (nodes2 ! j) \<noteq> 0) *
        (\<Sum>k = 0..<j. of_bool (A (nodes2 ! j) (nodes2 ! k) \<noteq> 0 \<and> A (nodes2 ! k) (nodes1 ! i) \<noteq> 0)))"

definition triple_sum :: "adj \<Rightarrow> int list \<Rightarrow> int list \<Rightarrow> int" where
  "triple_sum A nodes1 nodes2 =
     (\<Sum>i = 0..<length nodes1. \<Sum>j = 0..<length nodes2.
        of_bool (A (nodes1 ! i) (nodes2 ! j) \<noteq> 0) *
        (\<Sum>k = 0..<j. of_bool (A (nodes1 ! i) (nodes2 ! k) \<noteq> 0)))"

definition T1_sum :: "adj \<Rightarrow> int list \<Rightarrow> int list \<Rightarrow> weights \<Rightarrow> real" where
  "T1_sum A nodes1 nodes2 w =
     (\<Sum>v = 0..<length nodes1. \<Sum>p = 0..<length nodes2.
        of_bool (A (nodes1 ! v) (nodes2 ! p) \<noteq> 0) *
        (w (nodes2 ! p) * w (nodes2 ! p) * w (nodes1 ! v) +
         (\<Sum>q = p + 1..<length nodes2.
            of_bool (A (nodes1 ! v) (nodes2 ! q) \<noteq> 0 \<and> A (nodes2 ! p) (nodes2 ! q) \<noteq> 0) *
            (2 * w (nodes2 ! p) * w (nodes2 ! q) * w (nodes1 ! v)))))"

definition T2_sum :: "adj \<Rightarrow> int list \<Rightarrow> int list \<Rightarrow> weights \<Rightarrow> real" where
  "T2_sum A nodes1 nodes2 w =
     (\<Sum>v = 0..<length nodes1. \<Sum>p = 0..<length nodes2.
        of_bool (A (nodes1 ! v) (nodes2 ! p) \<noteq> 0) *
        (w (nodes2 ! p) * w (nodes2 ! p) * w (nodes1 ! v) +
         (\<Sum>q = p + 1..<length nodes2.
            of_bool (A (nodes1 ! v) (nodes2 ! q) \<noteq> 0) *
            (2 * w (nodes2 ! p) * w (nodes2 ! q) * w (nodes1 ! v)))))"

text \<open>
  Two inputs.  A \<open>2 \<times> 3\<close> matrix whose only non-zero cell is \<open>A[0, 1]\<close>, with five
  weights, all \<open>-1\<close>.  A \<open>3 \<times> 4\<close> matrix with the cells \<open>(0,1)\<close>, \<open>(0,2)\<close>, \<open>(2,1)\<close>,
  \<open>(1,0)\<close> set, with five weights \<open>-1, 2, 3, 0, 0\<close>.
\<close>

definition one_way_2x3 :: matrix where
  "one_way_2x3 = \<lparr>shape0 = 2, shape1 = 3, data = one_way_link\<rparr>"

definition negative_weights :: vector where
  "negative_weights = \<lparr>len = 5, item = (\<lambda>_. - 1)\<rparr>"

definition cycle_3x4 :: matrix where
  "cycle_3x4 = \<lparr>shape0 = 3, shape1 = 4,
     data = (\<lambda>i j. if (i, j) \<in> {(0, 1), (0, 2), (2, 1), (1, 0)} then 1 else 0)\<rparr>"

definition mixed_weights :: vector where
  "mixed_weights = \<lparr>len = 5, item = (\<lambda>i. if i = 0 then - 1 else if i = 1 then 2 else
                                         if i = 2 then 3 else 0)\<rparr>"

section \<open>Geomodel rewiring\<close>

text \<open>Assignment to one cell of a two-dimensional array, \<open>M[i, j] = v\<close>.\<close>

definition set2 :: "(int \<Rightarrow> int \<Rightarrow> 'a) \<Rightarrow> int \<Rightarrow> int \<Rightarrow> 'a \<Rightarrow> (int \<Rightarrow> int \<Rightarrow> 'a)" where
  "set2 M i j v = M(i := (M i)(j := v))"

type_synonym field = "int \<Rightarrow> int \<Rightarrow> real"
type_synonym rewire_cond_len = "field \<Rightarrow> real \<Rightarrow> int \<Rightarrow> int \<Rightarrow> int \<Rightarrow> int \<Rightarrow> bool"
type_synonym rewire_cond_deg = "nodevec \<Rightarrow> int \<Rightarrow> int \<Rightarrow> int \<Rightarrow> int \<Rightarrow> bool"

text \<open>Condition C1, condition C2 and the invariance of degree-degree correlations.\<close>

definition cond_len_c1 :: rewire_cond_len where
  "cond_len_c1 D eps s t k l \<longleftrightarrow>
     (\<bar>D s t - D k t\<bar> < eps \<and> \<bar>D k l - D s l\<bar> < eps) \<or>
     (\<bar>D s t - D s l\<bar> < eps \<and> \<bar>D k l - D k t\<bar> < eps)"

definition cond_len_c2 :: rewire_cond_len where
  "cond_len_c2 D eps s t k l \<longleftrightarrow>
     \<bar>D s t - D s l\<bar> < eps \<and> \<bar>D t s - D t k\<bar> < eps \<and>
     \<bar>D k l - D k t\<bar> < eps \<and> \<bar>D l k - D l s\<bar> < eps"

definition cond_deg_corr :: rewire_cond_deg where
  "cond_deg_corr degree s t k l \<longleftrightarrow> degree s = degree k \<and> degree t = degree l"

text \<open>The tautology \<open>cond_deg_true\<close> is the null function pointer.\<close>

definition cond_deg_true :: "rewire_cond_deg option" where
  "cond_deg_true = None"

text \<open>
  The four assignment lines that rewire the links symmetrically, in source order, and
  the two assignments to the rows \<open>edge1\<close>, \<open>edge2\<close> of the edge list.
\<close>

definition rewire_links :: "adj \<Rightarrow> int \<Rightarrow> int \<Rightarrow> int \<Rightarrow> int \<Rightarrow> adj" where
  "rewire_links A s t k l =
     (let A1 = set2 (set2 A s t 0) t s 0;
          A2 = set2 (set2 A1 k l 0) l k 0;
          A3 = set2 (set2 A2 s l 1) l s 1
      in set2 (set2 A3 t k 1) k t 1)"

definition rewire_edges ::
  "(int \<Rightarrow> int \<Rightarrow> int) \<Rightarrow> int \<Rightarrow> int \<Rightarrow> int \<Rightarrow> int \<Rightarrow> int \<Rightarrow> int \<Rightarrow> (int \<Rightarrow> int \<Rightarrow> int)" where
  "rewire_edges edges edge1 edge2 s t k l =
     (let edges1 = set2 (set2 edges edge1 0 s) edge1 1 l
      in set2 (set2 edges1 edge2 0 k) edge2 1 t)"

text \<open>
  \<open>_randomly_rewire_geomodel\<close>.  The random source is the list of the pairs of numbers
  that the successive calls of \<open>rd.random()\<close> return, two per pass of the \<open>while\<close>
  loop; \<open>edge = floor(random * E)\<close>.  The loop has no bound on the number of passes:
  the result is \<open>None\<close> when the list is used up while \<open>i < iterations\<close> still holds,
  and \<open>Some\<close> of the final matrix and edge list when the loop has ended.
\<close>

fun rewire_loop ::
  "int \<Rightarrow> real \<Rightarrow> field \<Rightarrow> int \<Rightarrow> nodevec \<Rightarrow> rewire_cond_len \<Rightarrow> rewire_cond_deg option
     \<Rightarrow> int \<Rightarrow> adj \<times> (int \<Rightarrow> int \<Rightarrow> int) \<Rightarrow> (real \<times> real) list
     \<Rightarrow> (adj \<times> (int \<Rightarrow> int \<Rightarrow> int)) option" where
  "rewire_loop iterations eps D E degree cond_len cond_deg i (A, edges) [] =
     (if i < iterations then None else Some (A, edges))"
| "rewire_loop iterations eps D E degree cond_len cond_deg i (A, edges) ((r1, r2) # draws) =
     (if i < iterations then
        (let edge1 = \<lfloor>r1 * real_of_int E\<rfloor>;
             edge2 = \<lfloor>r2 * real_of_int E\<rfloor>;
             s = edges edge1 0; t = edges edge1 1;
             k = edges edge2 0; l = edges edge2 1
         in if (s \<noteq> k \<and> s \<noteq> l \<and> t \<noteq> k \<and> t \<noteq> l) \<and>
               (A s l = 0 \<and> A t k = 0) \<and>
               (case cond_deg of None \<Rightarrow> True | Some c \<Rightarrow> c degree s t k l) \<and>
               cond_len D eps s t k l
            then rewire_loop iterations eps D E degree cond_len cond_deg (i + 1)
                   (rewire_links A s t k l, rewire_edges edges edge1 edge2 s t k l) draws
            else rewire_loop iterations eps D E degree cond_len cond_deg i (A, edges) draws)
      else Some (A, edges))"

definition randomly_rewire_geomodel ::
  "int \<Rightarrow> real \<Rightarrow> adj \<Rightarrow> field \<Rightarrow> int \<Rightarrow> (int \<Rightarrow> int \<Rightarrow> int) \<Rightarrow> nodevec \<Rightarrow> rewire_cond_len
     \<Rightarrow> rewire_cond_deg option \<Rightarrow> (real \<times> real) list \<Rightarrow> (adj \<times> (int \<Rightarrow> int \<Rightarrow> int)) option" where
  "randomly_rewire_geomodel iterations eps A D E edges degree cond_len cond_deg draws =
     rewire_loop iterations eps D E degree cond_len cond_deg 0 (A, edges) draws"

text \<open>
  The three entry points.  \<open>I\<close> and \<open>II\<close> pass an empty degree array, which is never
  read because the degree condition is the null pointer.
\<close>

definition randomly_rewire_geomodel_I ::
  "int \<Rightarrow> real \<Rightarrow> adj \<Rightarrow> field \<Rightarrow> int \<Rightarrow> (int \<Rightarrow> int \<Rightarrow> int) \<Rightarrow> (real \<times> real) list
     \<Rightarrow> (adj \<times> (int \<Rightarrow> int \<Rightarrow> int)) option" where
  "randomly_rewire_geomodel_I iterations eps A D E edges draws =
     randomly_rewire_geomodel iterations eps A D E edges (\<lambda>_. 0) cond_len_c1 cond_deg_true draws"

definition randomly_rewire_geomodel_II ::
  "int \<Rightarrow> real \<Rightarrow> adj \<Rightarrow> field \<Rightarrow> int \<Rightarrow> (int \<Rightarrow> int \<Rightarrow> int) \<Rightarrow> (real \<times> real) list
     \<Rightarrow> (adj \<times> (int \<Rightarrow> int \<Rightarrow> int)) option" where
  "randomly_rewire_geomodel_II iterations eps A D E edges draws =
     randomly_rewire_geomodel iterations eps A D E edges (\<lambda>_. 0) cond_len_c2 cond_deg_true draws"

definition randomly_rewire_geomodel_III ::
  "int \<Rightarrow> real \<Rightarrow> adj \<Rightarrow> field \<Rightarrow> int \<Rightarrow> (int \<Rightarrow> int \<Rightarrow> int) \<Rightarrow> nodevec \<Rightarrow> (real \<times> real) list
     \<Rightarrow> (adj \<times> (int \<Rightarrow> int \<Rightarrow> int)) option" where
  "randomly_rewire_geomodel_III iterations eps A D E edges degree draws =
     randomly_rewire_geomodel iterations eps A D E edges degree cond_len_c2
       (Some cond_deg_corr) draws"

text \<open>
  The data model of the specification: the degree of a node and the number of links of
  an \<open>N \<times> N\<close> matrix, the matrix invariant (symmetric, 0/1, zero diagonal), the
  consistency of the edge list with the matrix, and an edge list that names no link
  twice (in either direction).
\<close>

definition degree_of :: "int \<Rightarrow> adj \<Rightarrow> int \<Rightarrow> int" where
  "degree_of N A i = (\<Sum>j\<leftarrow>py_range 0 N. A i j)"

definition link_count :: "int \<Rightarrow> adj \<Rightarrow> int" where
  "link_count N A = (\<Sum>i\<leftarrow>py_range 0 N. degree_of N A i) div 2"

definition adjacency :: "int \<Rightarrow> adj \<Rightarrow> bool" where
  "adjacency N A \<longleftrightarrow>
     (\<forall>i\<in>set (py_range 0 N). A i i = 0 \<and>
        (\<forall>j\<in>set (py_range 0 N). A i j = A j i \<and> (A i j = 0 \<or> A i j = 1)))"

definition edges_consistent :: "int \<Rightarrow> adj \<Rightarrow> int \<Rightarrow> (int \<Rightarrow> int \<Rightarrow> int) \<Rightarrow> bool" where
  "edges_consistent N A E edges \<longleftrightarrow>
     (\<forall>e\<in>set (py_range 0 E).
        0 \<le> edges e 0 \<and> edges e 0 < N \<and> 0 \<le> edges e 1 \<and> edges e 1 < N \<and>
        A (edges e 0) (edges e 1) = 1)"

definition edges_simple :: "int \<Rightarrow> (int \<Rightarrow> int \<Rightarrow> int) \<Rightarrow> bool" where
  "edges_simple E edges \<longleftrightarrow>
     (\<forall>e\<in>set (py_range 0 E). \<forall>f\<in>set (py_range 0 E). e \<noteq> f \<longrightarrow>
        {edges e 0, edges e 1} \<noteq> {edges f 0, edges f 1})"

text \<open>Matrices and edge lists given by a list of links, for concrete inputs.\<close>

definition adj_of :: "(int \<times> int) list \<Rightarrow> adj" where
  "adj_of links i j = (if (i, j) \<in> set links \<or> (j, i) \<in> set links then 1 else 0)"

definition rows_of :: "(int \<times> int) list \<Rightarrow> int \<Rightarrow> int \<Rightarrow> int" where
  "rows_of links e c =
     (if 0 \<le> e \<and> e < int (length links)
      then (if c = 0 then fst (links ! nat e) else snd (links ! nat e)) else 0)"

section \<open>Cross links of interacting networks\<close>

text \<open>
  \<open>overwriteAdjacency\<close>: the body of the two loops, \<open>A[n1, n2] = A[n2, n1] = cross_A[i, j]\<close>
  (the right-hand side is read once, then the two cells are written from left to
  right), and the loops \<open>for i in range(m)\<close>, \<open>for j in range(n)\<close>.
\<close>

definition overwriteAdjacency_cell :: "adj \<Rightarrow> int list \<Rightarrow> int list \<Rightarrow> int \<Rightarrow> int \<Rightarrow> adj \<Rightarrow> adj" where
  "overwriteAdjacency_cell cross_A nodes1 nodes2 i j A =
     (let n1 = nodes1 ! nat i; n2 = nodes2 ! nat j; v = cross_A i j
      in set2 (set2 A n1 n2 v) n2 n1 v)"

definition overwriteAdjacency :: "adj \<Rightarrow> adj \<Rightarrow> int list \<Rightarrow> int list \<Rightarrow> int \<Rightarrow> int \<Rightarrow> adj" where
  "overwriteAdjacency A cross_A nodes1 nodes2 m n =
     fold (\<lambda>i. fold (\<lambda>j. overwriteAdjacency_cell cross_A nodes1 nodes2 i j) (py_range 0 n))
       (py_range 0 m) A"

text \<open>
  \<open>_randomlyRewireCrossLinks\<close>.  The random source is the list of the pairs
  \<open>(e1, e2)\<close> that the successive passes of the \<open>while True\<close> loop draw with
  \<open>randint(number_cross_links)\<close>, which raises \<open>ValueError\<close> when its argument is not
  positive.  \<open>choose_cross_links\<close> is the \<open>while True\<close> loop: it returns the first
  pair that passes the test and the unused draws, and \<open>None\<close> when the draws are used
  up before a pair passes.  \<open>swap_cross_links\<close> is the rest of the body of the
  \<open>for\<close> loop.
\<close>

fun choose_cross_links ::
  "adj \<Rightarrow> (int \<Rightarrow> int \<Rightarrow> int) \<Rightarrow> (int \<times> int) list \<Rightarrow> ((int \<times> int) \<times> (int \<times> int) list) option" where
  "choose_cross_links cross_A cross_links [] = None"
| "choose_cross_links cross_A cross_links ((e1, e2) # draws) =
     (let a = cross_links e1 0; b = cross_links e1 1;
          c = cross_links e2 0; d = cross_links e2 1
      in if \<not> (cross_A a d \<noteq> 0 \<or> cross_A c b \<noteq> 0) then Some ((e1, e2), draws)
         else choose_cross_links cross_A cross_links draws)"

definition swap_cross_links ::
  "adj \<Rightarrow> (int \<Rightarrow> int \<Rightarrow> int) \<Rightarrow> int \<Rightarrow> int \<Rightarrow> adj \<times> (int \<Rightarrow> int \<Rightarrow> int)" where
  "swap_cross_links cross_A cross_links e1 e2 =
     (let a = cross_links e1 0; b = cross_links e1 1;
          c = cross_links e2 0; d = cross_links e2 1;
          cross_A1 = set2 (set2 cross_A a b 0) c d 0;
          cross_A2 = set2 (set2 cross_A1 a d 1) c b 1;
          b' = cross_links e1 1;
          cross_links1 = set2 cross_links e1 1 (cross_links e2 1);
          cross_links2 = set2 cross_links1 e2 1 b'
      in (cross_A2, cross_links2))"

fun rewire_cross_loop ::
  "nat \<Rightarrow> int \<Rightarrow> adj \<times> (int \<Rightarrow> int \<Rightarrow> int) \<Rightarrow> (int \<times> int) list
     \<Rightarrow> (py_error + adj \<times> (int \<Rightarrow> int \<Rightarrow> int)) option" where
  "rewire_cross_loop 0 number_cross_links st draws = Some (Inr st)"
| "rewire_cross_loop (Suc swaps) number_cross_links (cross_A, cross_links) draws =
     (if number_cross_links \<le> 0 then Some (Inl ValueError)
      else case choose_cross_links cross_A cross_links draws of
             None \<Rightarrow> None
           | Some ((e1, e2), rest) \<Rightarrow>
               rewire_cross_loop swaps number_cross_links
                 (swap_cross_links cross_A cross_links e1 e2) rest)"

definition randomlyRewireCrossLinks ::
  "adj \<Rightarrow> adj \<Rightarrow> (int \<Rightarrow> int \<Rightarrow> int) \<Rightarrow> int list \<Rightarrow> int list \<Rightarrow> int \<Rightarrow> int \<Rightarrow> (int \<times> int) list
     \<Rightarrow> (py_error + adj \<times> adj \<times> (int \<Rightarrow> int \<Rightarrow> int)) option" where
  "randomlyRewireCrossLinks A cross_A cross_links nodes1 nodes2 number_cross_links number_swaps draws =
     (let m = int (length nodes1); n = int (length nodes2) in
      case rewire_cross_loop (nat number_swaps) number_cross_links (cross_A, cross_links) draws of
        None \<Rightarrow> None
      | Some (Inl err) \<Rightarrow> Some (Inl err)
      | Some (Inr (cross_A', cross_links')) \<Rightarrow>
          Some (Inr (overwriteAdjacency A cross_A' nodes1 nodes2 m n, cross_A', cross_links')))"

text \<open>
  Row sums, column sums and the number of 1-entries of an \<open>m \<times> n\<close> cross-adjacency
  matrix; the matrix being 0/1; the list of cross links naming 1-entries by indices in
  range; and a list of cross links without a repeated row.
\<close>

definition row_sum :: "int \<Rightarrow> adj \<Rightarrow> int \<Rightarrow> int" where
  "row_sum n M a = (\<Sum>b\<leftarrow>py_range 0 n. M a b)"

definition col_sum :: "int \<Rightarrow> adj \<Rightarrow> int \<Rightarrow> int" where
  "col_sum m M b = (\<Sum>a\<leftarrow>py_range 0 m. M a b)"

definition entry_total :: "int \<Rightarrow> int \<Rightarrow> adj \<Rightarrow> int" where
  "entry_total m n M = (\<Sum>a\<leftarrow>py_range 0 m. row_sum n M a)"

definition cross_binary :: "int \<Rightarrow> int \<Rightarrow> adj \<Rightarrow> bool" where
  "cross_binary m n M \<longleftrightarrow>
     (\<forall>a\<in>set (py_range 0 m). \<forall>b\<in>set (py_range 0 n). M a b = 0 \<or> M a b = 1)"

definition links_consistent :: "int \<Rightarrow> int \<Rightarrow> adj \<Rightarrow> int \<Rightarrow> (int \<Rightarrow> int \<Rightarrow> int) \<Rightarrow> bool" where
  "links_consistent m n M number_cross_links cross_links \<longleftrightarrow>
     (\<forall>e\<in>set (py_range 0 number_cross_links).
        0 \<le> cross_links e 0 \<and> cross_links e 0 < m \<and>
        0 \<le> cross_links e 1 \<and> cross_links e 1 < n \<and>
        M (cross_links e 0) (cross_links e 1) = 1)"

definition links_simple :: "int \<Rightarrow> (int \<Rightarrow> int \<Rightarrow> int) \<Rightarrow> bool" where
  "links_simple number_cross_links cross_links \<longleftrightarrow>
     (\<forall>e\<in>set (py_range 0 number_cross_links). \<forall>f\<in>set (py_range 0 number_cross_links).
        e \<noteq> f \<longrightarrow>
        (cross_links e 0, cross_links e 1) \<noteq> (cross_links f 0, cross_links f 1))"

text \<open>A matrix given by the list of its 1-entries, for concrete inputs.\<close>

definition matrix_of :: "(int \<times> int) list \<Rightarrow> adj" where
  "matrix_of cells i j = (if (i, j) \<in> set cells then 1 else 0)"

section \<open>Local cliquishness of order 4\<close>







text \<open>
  The neighbours of a node (the columns with entry 1 in its row), the ordered triples
  of distinct neighbours that are linked in a cycle, the complete graph on the
  nodes \<open>0, \<dots>, n - 1\<close>, and the graph on these nodes in which node 0 is linked to
  every other node and the nodes 1, 2, 3 form a triangle, with its degree vector.
\<close>

definition neighbours :: "int \<Rightarrow> adj \<Rightarrow> int \<Rightarrow> int set" where
  "neighbours N A i = {j \<in> {0..<N}. A i j = 1}"





section \<open>Current-flow betweenness over a range of rows\<close>

text \<open>
  \<open>_mpi_newman_betweenness\<close>.  The arguments \<open>this_A\<close> and \<open>V\<close> are only read; the
  function returns the new array \<open>this_betweenness\<close> with \<open>start_i\<close> and \<open>end_i\<close>.
  \<open>np.zeros(this_N)\<close> raises \<open>ValueError\<close> for a negative length.  The loops, from the
  inside out: over \<open>t\<close>, over \<open>s\<close>, over \<open>j\<close> and over \<open>i_rel\<close>.
\<close>

definition mpi_newman_betweenness_t ::
  "field \<Rightarrow> int \<Rightarrow> int \<Rightarrow> real \<Rightarrow> int \<Rightarrow> real \<Rightarrow> real" where
  "mpi_newman_betweenness_t V i_abs j Vis_minus_Vjs t sum_s =
     (if i_abs \<noteq> t then sum_s + \<bar>Vis_minus_Vjs - V i_abs t + V j t\<bar> else sum_s)"

definition mpi_newman_betweenness_s :: "field \<Rightarrow> int \<Rightarrow> int \<Rightarrow> int \<Rightarrow> real \<Rightarrow> real" where
  "mpi_newman_betweenness_s V i_abs j s sum_j =
     (if i_abs \<noteq> s then
        (let Vis_minus_Vjs = V i_abs s - V j s;
             sum_s = fold (mpi_newman_betweenness_t V i_abs j Vis_minus_Vjs) (py_range 0 s) 0
         in sum_j + sum_s)
      else sum_j)"

definition mpi_newman_betweenness_j ::
  "adj \<Rightarrow> field \<Rightarrow> int \<Rightarrow> int \<Rightarrow> int \<Rightarrow> int \<Rightarrow> real list \<Rightarrow> real list" where
  "mpi_newman_betweenness_j this_A V N i_rel i_abs j this_betweenness =
     (if this_A i_rel j \<noteq> 0 then
        (let sum_j = fold (mpi_newman_betweenness_s V i_abs j) (py_range 0 N) 0
         in this_betweenness[nat i_rel := this_betweenness ! nat i_rel + sum_j])
      else this_betweenness)"

definition mpi_newman_betweenness_i ::
  "adj \<Rightarrow> field \<Rightarrow> int \<Rightarrow> int \<Rightarrow> int \<Rightarrow> real list \<Rightarrow> real list" where
  "mpi_newman_betweenness_i this_A V N start_i i_rel this_betweenness =
     (let i_abs = i_rel + start_i
      in fold (mpi_newman_betweenness_j this_A V N i_rel i_abs) (py_range 0 N) this_betweenness)"

definition mpi_newman_betweenness ::
  "adj \<Rightarrow> field \<Rightarrow> int \<Rightarrow> int \<Rightarrow> int \<Rightarrow> py_error + real list \<times> int \<times> int" where
  "mpi_newman_betweenness this_A V N start_i end_i =
     (let this_N = end_i - start_i in
      if this_N < 0 then Inl ValueError
      else Inr (fold (mpi_newman_betweenness_i this_A V N start_i) (py_range 0 this_N)
                  (replicate (nat this_N) 0),
                start_i, end_i))"

text \<open>
  The sum of the claim for the source node \<open>i\<close>: over the \<open>j\<close> with
  \<open>this_A[i - start_i, j] = 1\<close> and the pairs \<open>t < s\<close> with \<open>s \<noteq> i\<close>, \<open>t \<noteq> i\<close>.
\<close>

definition newman_sum :: "adj \<Rightarrow> field \<Rightarrow> int \<Rightarrow> int \<Rightarrow> int \<Rightarrow> real" where
  "newman_sum this_A V N start_i i =
     (\<Sum>j\<in>{j \<in> {0..<N}. this_A (i - start_i) j = 1}.
        \<Sum>s\<in>{0..<N} - {i}. \<Sum>t\<in>{0..<s} - {i}.
          \<bar>V i s - V j s - V i t + V j t\<bar>)"

section \<open>Forward phase of the node-weighted betweenness search\<close>

text \<open>
  \<open>_nsi_betweenness\<close>, from the initialisation to the end of the forward \<open>while\<close>
  loop.  The state holds the arrays the phase writes and the two counters of the
  queue.  In the branch \<open>i == -1\<close> the argument of \<open>print\<close> applies the format string
  with three fields to \<open>qi\<close> alone (the operator \<open>%\<close> binds before the commas), which
  raises \<open>TypeError\<close> before \<open>break\<close> is reached.
\<close>

record bfs_state =
  distances_to_j :: nodevec
  n_predecessors :: nodevec
  flat_predecessors :: nodevec
  multiplicity_to_j :: weights
  betweenness_to_j :: weights
  excess_to_j :: weights
  queue :: nodevec
  queue_len :: int
  qi :: int

text \<open>The initialisation: the loop \<open>for l in range(N)\<close> and the four assignments for \<open>j\<close>.\<close>

definition nsi_betweenness_init ::
  "int \<Rightarrow> weights \<Rightarrow> int \<Rightarrow> weights \<Rightarrow> weights \<Rightarrow> nodevec \<Rightarrow> nodevec \<Rightarrow> bfs_state" where
  "nsi_betweenness_init N w j betweenness excess is_source predecessors =
     (let (betweenness', excess') =
            fold (\<lambda>l (b, e). let v = real_of_int (is_source l) * w l in (b(l := v), e(l := v)))
              (py_range 0 N) (betweenness, excess)
      in \<lparr>distances_to_j = (\<lambda>_. 2 * N)(j := 0),
          n_predecessors = (\<lambda>_. 0),
          flat_predecessors = predecessors,
          multiplicity_to_j = (\<lambda>_. 0)(j := w j),
          betweenness_to_j = betweenness',
          excess_to_j = excess',
          queue = (\<lambda>_. 0)(0 := j),
          queue_len = 1,
          qi = 0\<rparr>)"

text \<open>The body of \<open>for l_index in range(oi, oi + k[i])\<close>.\<close>

definition nsi_betweenness_neighbor ::
  "weights \<Rightarrow> nodevec \<Rightarrow> nodevec \<Rightarrow> int \<Rightarrow> int \<Rightarrow> int \<Rightarrow> bfs_state \<Rightarrow> bfs_state" where
  "nsi_betweenness_neighbor w offsets flat_neighbors i next_d l_index st =
     (let l = flat_neighbors l_index;
          dl = distances_to_j st l
      in if dl \<ge> next_d then
           (let fi = offsets l + n_predecessors st l;
                st1 = st\<lparr>n_predecessors := (n_predecessors st)(l := n_predecessors st l + 1)\<rparr>;
                st2 = st1\<lparr>flat_predecessors := (flat_predecessors st1)(fi := i)\<rparr>;
                st3 = st2\<lparr>multiplicity_to_j := (multiplicity_to_j st2)
                          (l := multiplicity_to_j st2 l + w l * multiplicity_to_j st2 i)\<rparr>
            in if dl > next_d then
                 st3\<lparr>distances_to_j := (distances_to_j st3)(l := next_d),
                     queue := (queue st3)(queue_len st3 := l),
                     queue_len := queue_len st3 + 1\<rparr>
               else st3)
         else st)"

text \<open>One pass of the \<open>while\<close> loop, and the loop.\<close>

definition nsi_betweenness_pass ::
  "weights \<Rightarrow> nodevec \<Rightarrow> nodevec \<Rightarrow> nodevec \<Rightarrow> bfs_state \<Rightarrow> py_error + bfs_state" where
  "nsi_betweenness_pass w k offsets flat_neighbors st =
     (let i = queue st (qi st) in
      if i = - 1 then Inl TypeError
      else
        (let next_d = distances_to_j st i + 1;
             oi = offsets i;
             st' = fold (nsi_betweenness_neighbor w offsets flat_neighbors i next_d)
                     (py_range oi (oi + k i)) st
         in Inr (st'\<lparr>qi := qi st' + 1\<rparr>)))"

definition nsi_betweenness_forward ::
  "int \<Rightarrow> weights \<Rightarrow> nodevec \<Rightarrow> int \<Rightarrow> weights \<Rightarrow> weights \<Rightarrow> nodevec \<Rightarrow> nodevec \<Rightarrow> nodevec
     \<Rightarrow> nodevec \<Rightarrow> (py_error + bfs_state) option" where
  "nsi_betweenness_forward N w k j betweenness excess offsets flat_neighbors is_source predecessors =
     while_option
       (\<lambda>r. case r of Inl _ \<Rightarrow> False | Inr st \<Rightarrow> qi st < queue_len st)
       (\<lambda>r. case r of Inl e \<Rightarrow> Inl e | Inr st \<Rightarrow> nsi_betweenness_pass w k offsets flat_neighbors st)
       (Inr (nsi_betweenness_init N w j betweenness excess is_source predecessors))"

text \<open>
  The flattened neighbour structure is well formed when every node has a block of
  non-negative length that holds node ids.  A node is reachable from \<open>j\<close> when a chain
  of neighbour entries leads from \<open>j\<close> to it.  \<open>queued\<close> is the list of the nodes in the
  queue, in the order in which they were appended.
\<close>

definition neighbor_structure :: "int \<Rightarrow> nodevec \<Rightarrow> nodevec \<Rightarrow> nodevec \<Rightarrow> bool" where
  "neighbor_structure N k offsets flat_neighbors \<longleftrightarrow>
     (\<forall>i\<in>{0..<N}. \<forall>x\<in>{offsets i..<offsets i + k i}.
        0 \<le> flat_neighbors x \<and> flat_neighbors x < N)"

inductive reachable :: "nodevec \<Rightarrow> nodevec \<Rightarrow> nodevec \<Rightarrow> int \<Rightarrow> int \<Rightarrow> bool"
  for k offsets flat_neighbors j where
  source: "reachable k offsets flat_neighbors j j"
| neighbor: "reachable k offsets flat_neighbors j i \<Longrightarrow> offsets i \<le> x \<Longrightarrow> x < offsets i + k i \<Longrightarrow>
             reachable k offsets flat_neighbors j (flat_neighbors x)"

definition queued :: "bfs_state \<Rightarrow> int list" where
  "queued st = map (queue st) (py_range 0 (queue_len st))"

text \<open>The invariant of the forward phase, and its form inside one pass.\<close>

definition forward_inv :: "int \<Rightarrow> nodevec \<Rightarrow> nodevec \<Rightarrow> nodevec \<Rightarrow> int \<Rightarrow> bfs_state \<Rightarrow> bool" where
  "forward_inv N k offsets flat_neighbors j st \<longleftrightarrow>
     0 \<le> qi st \<and> qi st \<le> queue_len st \<and>
     set (queued st) \<subseteq> {0..<N} \<and> distinct (queued st) \<and>
     sorted (map (distances_to_j st) (queued st)) \<and>
     (qi st < queue_len st \<longrightarrow>
        (\<forall>l\<in>set (queued st). distances_to_j st l \<le> distances_to_j st (queue st (qi st)) + 1)) \<and>
     (\<forall>l\<in>{0..<N}. l \<in> set (queued st) \<or> distances_to_j st l = 2 * N) \<and>
     (\<forall>l\<in>set (queued st). reachable k offsets flat_neighbors j l)"

definition pass_inv ::
  "int \<Rightarrow> nodevec \<Rightarrow> nodevec \<Rightarrow> nodevec \<Rightarrow> int \<Rightarrow> int \<Rightarrow> int \<Rightarrow> int \<Rightarrow> bfs_state \<Rightarrow> bool" where
  "pass_inv N k offsets flat_neighbors j q i next_d st \<longleftrightarrow>
     forward_inv N k offsets flat_neighbors j st \<and>
     qi st = q \<and> q < queue_len st \<and> queue st q = i \<and> distances_to_j st i + 1 = next_d \<and>
     (\<forall>l\<in>set (queued st). distances_to_j st l \<le> next_d)"

text \<open>
  A concrete neighbour structure on three nodes: 0 and 1 are neighbours of each other
  and node 2 is isolated.
\<close>

definition pair_offsets :: nodevec where
  "pair_offsets i = (if i = 0 then 0 else if i = 1 then 1 else 2)"

definition pair_degree :: nodevec where
  "pair_degree i = (if i = 0 \<or> i = 1 then 1 else 0)"

definition pair_neighbors :: nodevec where
  "pair_neighbors x = (if x = 0 then 1 else 0)"

section \<open>Proofs: cross transitivity\<close>

lemma fold_pair_add:
  fixes f g :: "nat \<Rightarrow> 'a::comm_monoid_add"
  assumes "\<And>k a b. step k (a, b) = (a + f k, b + g k)"
  shows "fold step xs (a, b) = (a + sum_list (map f xs), b + sum_list (map g xs))"
  using assms by (induction xs arbitrary: a b) (simp_all add: add.assoc)

lemma fold_pair_add_upt:
  fixes f g :: "nat \<Rightarrow> 'a::comm_monoid_add"
  assumes "\<And>k a b. step k (a, b) = (a + f k, b + g k)"
  shows "fold step [i..<j] (a, b) = (a + sum f {i..<j}, b + sum g {i..<j})"
  by (simp add: fold_pair_add [of step f g, OF assms] interv_sum_list_conv_sum_set_nat)

lemmas of_bool_sum_rules = sum_of_bool_eq sum_mult_of_bool_eq sum_of_bool_mult_eq

lemma ct_k:
  "cross_transitivity_k A nodes2 n1 n2 k (a, b) =
     (a + of_bool (A n2 (nodes2 ! k) \<noteq> 0 \<and> A (nodes2 ! k) n1 \<noteq> 0),
      b + of_bool (A n1 (nodes2 ! k) \<noteq> 0))"
  by (simp add: cross_transitivity_k_def)

lemma ct_j:
  "cross_transitivity_j A nodes2 n1 j (a, b) =
     (a + of_bool (A n1 (nodes2 ! j) \<noteq> 0) *
            (\<Sum>k = 0..<j. of_bool (A (nodes2 ! j) (nodes2 ! k) \<noteq> 0 \<and> A (nodes2 ! k) n1 \<noteq> 0)),
      b + of_bool (A n1 (nodes2 ! j) \<noteq> 0) *
            (\<Sum>k = 0..<j. of_bool (A n1 (nodes2 ! k) \<noteq> 0)))"
  unfolding cross_transitivity_j_def Let_def
  by (simp add: fold_pair_add_upt [OF ct_k] del: of_bool_sum_rules)

lemma ct_i:
  "cross_transitivity_i A nodes1 nodes2 i (a, b) =
     (a + (\<Sum>j = 0..<length nodes2. of_bool (A (nodes1 ! i) (nodes2 ! j) \<noteq> 0) *
            (\<Sum>k = 0..<j. of_bool (A (nodes2 ! j) (nodes2 ! k) \<noteq> 0 \<and> A (nodes2 ! k) (nodes1 ! i) \<noteq> 0))),
      b + (\<Sum>j = 0..<length nodes2. of_bool (A (nodes1 ! i) (nodes2 ! j) \<noteq> 0) *
            (\<Sum>k = 0..<j. of_bool (A (nodes1 ! i) (nodes2 ! k) \<noteq> 0))))"
  unfolding cross_transitivity_i_def Let_def
  by (rule fold_pair_add_upt) (rule ct_j)

lemma cross_counts_sum:
  "cross_counts A nodes1 nodes2 =
     ((\<Sum>i = 0..<length nodes1. \<Sum>j = 0..<length nodes2. of_bool (A (nodes1 ! i) (nodes2 ! j) \<noteq> 0) *
            (\<Sum>k = 0..<j. of_bool (A (nodes2 ! j) (nodes2 ! k) \<noteq> 0 \<and> A (nodes2 ! k) (nodes1 ! i) \<noteq> 0))),
      (\<Sum>i = 0..<length nodes1. \<Sum>j = 0..<length nodes2. of_bool (A (nodes1 ! i) (nodes2 ! j) \<noteq> 0) *
            (\<Sum>k = 0..<j. of_bool (A (nodes1 ! i) (nodes2 ! k) \<noteq> 0))))"
  (is "_ = (?T, ?P)")
proof -
  have "fold (cross_transitivity_i A nodes1 nodes2) [0..<length nodes1] (0, 0) = (0 + ?T, 0 + ?P)"
    by (rule fold_pair_add_upt) (rule ct_i)
  then show ?thesis
    unfolding cross_counts_def by (simp del: of_bool_sum_rules)
qed

lemma nsi_q:
  "nsi_cross_transitivity_q A nodes2 w node_v node_p weight_v weight_p q (a, b) =
     (a + of_bool (A node_v (nodes2 ! q) \<noteq> 0 \<and> A node_p (nodes2 ! q) \<noteq> 0) *
            (2 * weight_p * w (nodes2 ! q) * weight_v),
      b + of_bool (A node_v (nodes2 ! q) \<noteq> 0) * (2 * weight_p * w (nodes2 ! q) * weight_v))"
  by (simp add: nsi_cross_transitivity_q_def Let_def)

lemma nsi_p:
  "nsi_cross_transitivity_p A nodes2 w node_v weight_v p (a, b) =
     (a + of_bool (A node_v (nodes2 ! p) \<noteq> 0) *
          (w (nodes2 ! p) * w (nodes2 ! p) * weight_v +
           (\<Sum>q = p + 1..<length nodes2.
               of_bool (A node_v (nodes2 ! q) \<noteq> 0 \<and> A (nodes2 ! p) (nodes2 ! q) \<noteq> 0) *
                 (2 * w (nodes2 ! p) * w (nodes2 ! q) * weight_v))),
      b + of_bool (A node_v (nodes2 ! p) \<noteq> 0) *
          (w (nodes2 ! p) * w (nodes2 ! p) * weight_v +
           (\<Sum>q = p + 1..<length nodes2.
               of_bool (A node_v (nodes2 ! q) \<noteq> 0) *
                 (2 * w (nodes2 ! p) * w (nodes2 ! q) * weight_v))))"
proof -
  have "fold (nsi_cross_transitivity_q A nodes2 w node_v node_p weight_v weight_p) [i..<j] (c, d) =
     (c + (\<Sum>q = i..<j. of_bool (A node_v (nodes2 ! q) \<noteq> 0 \<and> A node_p (nodes2 ! q) \<noteq> 0) *
            (2 * weight_p * w (nodes2 ! q) * weight_v)),
      d + (\<Sum>q = i..<j. of_bool (A node_v (nodes2 ! q) \<noteq> 0) *
            (2 * weight_p * w (nodes2 ! q) * weight_v)))" for node_p weight_p i j c d
    by (rule fold_pair_add_upt) (rule nsi_q)
  then show ?thesis
    unfolding nsi_cross_transitivity_p_def Let_def
    by (simp add: add.assoc del: of_bool_sum_rules)
qed

lemma nsi_v:
  "nsi_cross_transitivity_v A nodes1 nodes2 w v (a, b) =
     (a + (\<Sum>p = 0..<length nodes2. of_bool (A (nodes1 ! v) (nodes2 ! p) \<noteq> 0) *
          (w (nodes2 ! p) * w (nodes2 ! p) * w (nodes1 ! v) +
           (\<Sum>q = p + 1..<length nodes2.
               of_bool (A (nodes1 ! v) (nodes2 ! q) \<noteq> 0 \<and> A (nodes2 ! p) (nodes2 ! q) \<noteq> 0) *
                 (2 * w (nodes2 ! p) * w (nodes2 ! q) * w (nodes1 ! v))))),
      b + (\<Sum>p = 0..<length nodes2. of_bool (A (nodes1 ! v) (nodes2 ! p) \<noteq> 0) *
          (w (nodes2 ! p) * w (nodes2 ! p) * w (nodes1 ! v) +
           (\<Sum>q = p + 1..<length nodes2.
               of_bool (A (nodes1 ! v) (nodes2 ! q) \<noteq> 0) *
                 (2 * w (nodes2 ! p) * w (nodes2 ! q) * w (nodes1 ! v))))))"
  unfolding nsi_cross_transitivity_v_def Let_def
  by (rule fold_pair_add_upt) (rule nsi_p)

lemma nsi_cross_sums_sum:
  "nsi_cross_sums A nodes1 nodes2 w =
     ((\<Sum>v = 0..<length nodes1. \<Sum>p = 0..<length nodes2. of_bool (A (nodes1 ! v) (nodes2 ! p) \<noteq> 0) *
          (w (nodes2 ! p) * w (nodes2 ! p) * w (nodes1 ! v) +
           (\<Sum>q = p + 1..<length nodes2.
               of_bool (A (nodes1 ! v) (nodes2 ! q) \<noteq> 0 \<and> A (nodes2 ! p) (nodes2 ! q) \<noteq> 0) *
                 (2 * w (nodes2 ! p) * w (nodes2 ! q) * w (nodes1 ! v))))),
      (\<Sum>v = 0..<length nodes1. \<Sum>p = 0..<length nodes2. of_bool (A (nodes1 ! v) (nodes2 ! p) \<noteq> 0) *
          (w (nodes2 ! p) * w (nodes2 ! p) * w (nodes1 ! v) +
           (\<Sum>q = p + 1..<length nodes2.
               of_bool (A (nodes1 ! v) (nodes2 ! q) \<noteq> 0) *
                 (2 * w (nodes2 ! p) * w (nodes2 ! q) * w (nodes1 ! v))))))"
  (is "_ = (?T1, ?T2)")
proof -
  have "fold (nsi_cross_transitivity_v A nodes1 nodes2 w) [0..<length nodes1] (0, 0) =
          (0 + ?T1, 0 + ?T2)"
    by (rule fold_pair_add_upt) (rule nsi_v)
  then show ?thesis
    unfolding nsi_cross_sums_def by (simp del: of_bool_sum_rules)
qed

lemma sum_swap_lt:
  fixes g :: "nat \<Rightarrow> nat \<Rightarrow> 'a::comm_monoid_add"
  shows "(\<Sum>j = 0..<n. \<Sum>k = 0..<j. g k j) = (\<Sum>p = 0..<n. \<Sum>q = Suc p..<n. g p q)"
proof (induction n)
  case 0
  show ?case by simp
next
  case (Suc n)
  have "(\<Sum>p = 0..<Suc n. \<Sum>q = Suc p..<Suc n. g p q)
        = (\<Sum>p = 0..<n. \<Sum>q = Suc p..<Suc n. g p q)" by simp
  also have "\<dots> = (\<Sum>p = 0..<n. (\<Sum>q = Suc p..<n. g p q) + g p n)"
    by (rule sum.cong) auto
  also have "\<dots> = (\<Sum>p = 0..<n. \<Sum>q = Suc p..<n. g p q) + (\<Sum>p = 0..<n. g p n)"
    by (simp add: sum.distrib)
  finally show ?case using Suc by simp
qed

lemma of_bool_times_sum:
  "of_bool P * (\<Sum>k\<in>S. of_bool (Q k)) = (\<Sum>k\<in>S. (of_bool (P \<and> Q k) :: 'a::semiring_1))"
  by (cases P) (simp_all del: of_bool_sum_rules)

lemma inner_unit:
  fixes a :: "nat \<Rightarrow> bool" and c :: "nat \<Rightarrow> nat \<Rightarrow> bool"
  shows "(\<Sum>p = 0..<n. of_bool (a p) * (1 + (\<Sum>q = Suc p..<n. of_bool (a q \<and> c p q) * 2)))
       = ((\<Sum>j = 0..<n. of_bool (a j))
          + 2 * (\<Sum>j = 0..<n. of_bool (a j) * (\<Sum>k = 0..<j. of_bool (a k \<and> c k j))) :: real)"
proof -
  have "(\<Sum>j = 0..<n. of_bool (a j) * (\<Sum>k = 0..<j. of_bool (a k \<and> c k j)))
      = (\<Sum>j = 0..<n. \<Sum>k = 0..<j. (of_bool (a k \<and> a j \<and> c k j) :: real))"
    unfolding of_bool_times_sum
    by (intro sum.cong refl arg_cong [of _ _ of_bool]) blast
  also have "\<dots> = (\<Sum>p = 0..<n. \<Sum>q = Suc p..<n. of_bool (a p \<and> a q \<and> c p q))"
    by (rule sum_swap_lt)
  finally have t: "(\<Sum>j = 0..<n. of_bool (a j) * (\<Sum>k = 0..<j. of_bool (a k \<and> c k j)))
      = (\<Sum>p = 0..<n. \<Sum>q = Suc p..<n. (of_bool (a p \<and> a q \<and> c p q) :: real))" .
  have "of_bool (a p) * (1 + (\<Sum>q = Suc p..<n. of_bool (a q \<and> c p q) * 2))
      = (of_bool (a p) + 2 * (\<Sum>q = Suc p..<n. of_bool (a p \<and> a q \<and> c p q)) :: real)" for p
    by (cases "a p") (simp_all add: sum_distrib_left mult.commute del: of_bool_sum_rules)
  then show ?thesis
    unfolding t by (simp add: sum.distrib sum_distrib_left del: of_bool_sum_rules)
qed

lemma cross_counts_nonneg:
  "0 \<le> fst (cross_counts A nodes1 nodes2)" "0 \<le> snd (cross_counts A nodes1 nodes2)"
  unfolding cross_counts_sum by (simp_all add: sum_nonneg del: of_bool_sum_rules)

lemma cross_link_count_nonneg: "0 \<le> cross_link_count A nodes1 nodes2"
  unfolding cross_link_count_def by (simp add: sum_nonneg del: of_bool_sum_rules)

lemma inner_unit_shape:
  fixes a a' :: "nat \<Rightarrow> bool" and c d :: "nat \<Rightarrow> nat \<Rightarrow> bool"
  assumes "\<And>k. a' k = a k" "\<And>j k. d j k = c k j"
  shows "(\<Sum>p = 0..<n. of_bool (a p) *
            (1 * 1 * 1 + (\<Sum>q = p + 1..<n. of_bool (a q \<and> c p q) * (2 * 1 * 1 * 1))))
       = real_of_int ((\<Sum>j = 0..<n. of_bool (a j))
            + 2 * (\<Sum>j = 0..<n. of_bool (a j) * (\<Sum>k = 0..<j. of_bool (d j k \<and> a' k))))"
proof -
  have "(of_bool (d j k \<and> a' k) :: real) = of_bool (a k \<and> c k j)" for j k
    by (rule arg_cong [of _ _ of_bool]) (use assms in blast)
  then show ?thesis
    using inner_unit [where a = a and n = n and c = c] by (simp del: of_bool_sum_rules)
qed

lemma sum_split_real:
  "real_of_int ((\<Sum>i\<in>S. c i) + 2 * (\<Sum>i\<in>S. t i)) = (\<Sum>i\<in>S. real_of_int (c i + 2 * t i))"
  by (simp add: sum.distrib sum_distrib_left)

lemma nsi_unit_sums:
  assumes sym: "\<forall>x y. A x y = A y x"
  shows "nsi_cross_sums A nodes1 nodes2 (\<lambda>_. 1) =
     (real_of_int (cross_link_count A nodes1 nodes2 + 2 * fst (cross_counts A nodes1 nodes2)),
      real_of_int (cross_link_count A nodes1 nodes2 + 2 * snd (cross_counts A nodes1 nodes2)))"
proof -
  have s: "A a b \<noteq> 0 \<longleftrightarrow> A b a \<noteq> 0" for a b using sym by metis
  have T1: "fst (nsi_cross_sums A nodes1 nodes2 (\<lambda>_. 1)) =
     real_of_int (cross_link_count A nodes1 nodes2 + 2 * fst (cross_counts A nodes1 nodes2))"
    unfolding nsi_cross_sums_sum cross_counts_sum cross_link_count_def fst_conv
    by (rule trans [OF _ sum_split_real [symmetric]], rule sum.cong [OF refl],
        rule inner_unit_shape) (use s in blast)+
  have T2: "snd (nsi_cross_sums A nodes1 nodes2 (\<lambda>_. 1)) =
     real_of_int (cross_link_count A nodes1 nodes2 + 2 * snd (cross_counts A nodes1 nodes2))"
    unfolding nsi_cross_sums_sum cross_counts_sum cross_link_count_def snd_conv
    apply (rule trans [OF _ sum_split_real [symmetric]], rule sum.cong [OF refl])
    subgoal for v
      using inner_unit_shape [where c = "\<lambda>p q. True" and d = "\<lambda>p q. True"
          and a = "\<lambda>p. A (nodes1 ! v) (nodes2 ! p) \<noteq> 0" and a' = "\<lambda>p. A (nodes1 ! v) (nodes2 ! p) \<noteq> 0"
          and n = "length nodes2", OF refl refl]
      by (simp del: of_bool_sum_rules)
    done
  show ?thesis using T1 T2 by (simp add: prod_eq_iff)
qed

lemmas cross_eval_defs =
  cross_transitivity_def cross_counts_def cross_transitivity_i_def cross_transitivity_j_def
  cross_transitivity_k_def nsi_cross_transitivity_def nsi_cross_sums_def
  nsi_cross_transitivity_v_def nsi_cross_transitivity_p_def nsi_cross_transitivity_q_def

text \<open>
  Claim C2.  When no node of \<open>nodes1\<close> is linked to a node of \<open>nodes2\<close>, the
  unweighted kernel finds no triples and returns 0 through its guard, but the
  node-weighted kernel reaches \<open>T1 / T2\<close> with \<open>T2 = 0\<close> and raises
  \<open>ZeroDivisionError\<close> instead of returning 0.
\<close>

theorem no_cross_edges:
  assumes "\<forall>i<length nodes1. \<forall>j<length nodes2. A (nodes1 ! i) (nodes2 ! j) = 0"
  shows "cross_transitivity A nodes1 nodes2 = Inr 0 \<and>
         nsi_cross_transitivity A nodes1 nodes2 node_weights = Inl ZeroDivisionError"
proof -
  have "snd (cross_counts A nodes1 nodes2) = 0"
    unfolding cross_counts_sum using assms by (simp del: of_bool_sum_rules)
  moreover have "snd (nsi_cross_sums A nodes1 nodes2 node_weights) = 0"
    unfolding nsi_cross_sums_sum using assms by (simp del: of_bool_sum_rules)
  ultimately show ?thesis
    by (auto simp add: cross_transitivity_def nsi_cross_transitivity_def split: prod.splits)
qed

text \<open>
  Claim C2, at the failing input: the empty graph, \<open>nodes1 = [0]\<close>, \<open>nodes2 = [1]\<close>,
  unit weights.
\<close>

theorem no_cross_edges_witness:
  "cross_transitivity (\<lambda>i j. 0) [0] [1] = Inr 0 \<and>
   nsi_cross_transitivity (\<lambda>i j. 0) [0] [1] (\<lambda>_. 1) = Inl ZeroDivisionError"
  using no_cross_edges [of "[0]" "[1]" "\<lambda>i j. 0" "\<lambda>_. 1"] by simp

text \<open>
  Claim C3, counterexample: on the symmetric graph with the single link 0 - 1, with
  \<open>nodes1 = [0]\<close> and \<open>nodes2 = [1]\<close> (disjoint, one cross link), the node-weighted
  kernel with unit weights returns 1 and the unweighted kernel returns 0.
\<close>

theorem unit_weights_differ:
  "(\<forall>x y. single_link x y = single_link y x) \<and> set [0::int] \<inter> set [1] = {} \<and>
   single_link 0 1 = 1 \<and>
   nsi_cross_transitivity single_link [0] [1] (\<lambda>_. 1) = Inr 1 \<and>
   cross_transitivity single_link [0] [1] = Inr 0"
  by (simp add: cross_eval_defs single_link_def)

text \<open>
  Claim C3, amended.  For a symmetric matrix with at least one cross link and unit
  weights, the node-weighted kernel returns \<open>(L + 2 T) / (L + 2 P)\<close>, where \<open>L\<close> is the
  number of cross links and \<open>T\<close>, \<open>P\<close> are the triangles and triples counted by the
  unweighted kernel, which returns \<open>T / P\<close> (0 when \<open>P = 0\<close>).  The two values coincide
  exactly when every counted triple is closed and there is at least one
  (\<open>T = P > 0\<close>).
\<close>

theorem nsi_unit_weights:
  assumes "\<forall>x y. A x y = A y x" and "0 < cross_link_count A nodes1 nodes2"
  shows "nsi_cross_transitivity A nodes1 nodes2 (\<lambda>_. 1) =
           Inr (real_of_int (cross_link_count A nodes1 nodes2 + 2 * fst (cross_counts A nodes1 nodes2)) /
                real_of_int (cross_link_count A nodes1 nodes2 + 2 * snd (cross_counts A nodes1 nodes2))) \<and>
         (nsi_cross_transitivity A nodes1 nodes2 (\<lambda>_. 1) = cross_transitivity A nodes1 nodes2 \<longleftrightarrow>
            fst (cross_counts A nodes1 nodes2) = snd (cross_counts A nodes1 nodes2) \<and>
            0 < snd (cross_counts A nodes1 nodes2))"
proof -
  define L where "L = cross_link_count A nodes1 nodes2"
  define T where "T = fst (cross_counts A nodes1 nodes2)"
  define P where "P = snd (cross_counts A nodes1 nodes2)"
  have pos: "0 < L" "0 \<le> T" "0 \<le> P"
    using assms(2) cross_counts_nonneg [of A nodes1 nodes2] by (simp_all add: L_def T_def P_def)
  have cc: "cross_counts A nodes1 nodes2 = (T, P)" by (simp add: T_def P_def)
  have nsi: "nsi_cross_transitivity A nodes1 nodes2 (\<lambda>_. 1) =
               Inr (real_of_int (L + 2 * T) / real_of_int (L + 2 * P))"
    using pos by (simp add: nsi_cross_transitivity_def nsi_unit_sums [OF assms(1)] cc L_def [symmetric])
  have ct: "cross_transitivity A nodes1 nodes2 =
              Inr (if P \<noteq> 0 then real_of_int T / real_of_int P else 0)"
    by (simp add: cross_transitivity_def cc)
  have "real_of_int (L + 2 * T) / real_of_int (L + 2 * P) =
          (if P \<noteq> 0 then real_of_int T / real_of_int P else 0) \<longleftrightarrow> T = P \<and> 0 < P"
  proof (cases "P = 0")
    case True
    have "0 < real_of_int (L + 2 * T)" "0 < real_of_int L" using pos by simp_all
    then have "real_of_int (L + 2 * T) / real_of_int L \<noteq> 0" by simp
    then show ?thesis using True by simp
  next
    case False
    then have P: "0 < P" using pos by simp
    have "real_of_int (L + 2 * T) / real_of_int (L + 2 * P) = real_of_int T / real_of_int P
          \<longleftrightarrow> real_of_int ((L + 2 * T) * P) = real_of_int (T * (L + 2 * P))"
      using pos P by (simp add: field_simps)
    also have "\<dots> \<longleftrightarrow> (L + 2 * T) * P = T * (L + 2 * P)" by (simp only: of_int_eq_iff)
    also have "\<dots> \<longleftrightarrow> L * P = L * T" by (simp add: algebra_simps)
    also have "\<dots> \<longleftrightarrow> T = P" using pos by auto
    finally show ?thesis using P by simp
  qed
  then show ?thesis
    unfolding nsi ct by (simp add: L_def T_def P_def)
qed

text \<open>
  Claim C3, amended, on the open wedge 1 - 0 - 2 with \<open>nodes1 = [0]\<close>,
  \<open>nodes2 = [1, 2]\<close>: \<open>L = 2\<close>, \<open>T = 0\<close>, \<open>P = 1\<close>, so the node-weighted value is 1/2
  and the unweighted value is 0.
\<close>

theorem nsi_unit_weights_witness:
  "(\<forall>x y. open_wedge x y = open_wedge y x) \<and> 0 < cross_link_count open_wedge [0] [1, 2] \<and>
   nsi_cross_transitivity open_wedge [0] [1, 2] (\<lambda>_. 1) = Inr (1 / 2) \<and>
   cross_transitivity open_wedge [0] [1, 2] = Inr 0"
proof -
  have sym: "\<forall>x y. open_wedge x y = open_wedge y x" by (auto simp: open_wedge_def)
  have L: "cross_link_count open_wedge [0] [1, 2] = 2"
    by (simp add: cross_link_count_def open_wedge_def)
  have cc: "cross_counts open_wedge [0] [1, 2] = (0, 1)"
    by (simp add: cross_eval_defs open_wedge_def)
  show ?thesis
    using nsi_unit_weights [of open_wedge "[0]" "[1, 2]"] sym L cc
    by (simp add: cross_transitivity_def)
qed

text \<open>Reads inside the shape succeed, and a loop whose passes all succeed is a fold.\<close>

lemma buffer_index_valid:
  assumes "0 \<le> i" and "i < n"
  shows "buffer_index i n = Some i"
  using assms by (simp add: buffer_index_def)

lemma getitem2_valid:
  assumes "0 \<le> i" and "i < shape0 A" and "0 \<le> j" and "j < shape1 A"
  shows "getitem2 A i j = Inr (data A i j)"
  using assms by (simp add: getitem2_def buffer_index_valid)

lemma getitem1_valid:
  assumes "0 \<le> i" and "i < len w"
  shows "getitem1 w i = Inr (item w i)"
  using assms by (simp add: getitem1_def buffer_index_valid)

lemma for_loop_Inr:
  assumes "\<And>x s. x \<in> set xs \<Longrightarrow> body x s = Inr (f x s)"
  shows "for_loop body xs s = Inr (fold f xs s)"
  using assms by (induction xs arbitrary: s) simp_all

text \<open>With every node id inside the buffers, the checked kernels are the loops above.\<close>

lemma cross_transitivity_checked_refines:
  assumes "\<forall>x\<in>set nodes1 \<union> set nodes2. 0 \<le> x \<and> x < shape0 A \<and> x < shape1 A"
  shows "cross_transitivity_checked A nodes1 nodes2 = cross_transitivity (data A) nodes1 nodes2"
proof -
  have v1: "0 \<le> nodes1 ! i \<and> nodes1 ! i < shape0 A \<and> nodes1 ! i < shape1 A"
    if "i < length nodes1" for i using assms that by simp
  have v2: "0 \<le> nodes2 ! j \<and> nodes2 ! j < shape0 A \<and> nodes2 ! j < shape1 A"
    if "j < length nodes2" for j using assms that by simp
  have k: "cross_transitivity_k_checked A nodes2 (nodes1 ! i) (nodes2 ! j) k acc =
             Inr (cross_transitivity_k (data A) nodes2 (nodes1 ! i) (nodes2 ! j) k acc)"
    if "i < length nodes1" "j < length nodes2" "k < j" for i j k acc
  proof -
    have "k < length nodes2" using that by simp
    then show ?thesis
      using v1 [OF that(1)] v2 [OF that(2)] v2 [of k]
      by (cases acc)
         (simp add: cross_transitivity_k_checked_def cross_transitivity_k_def getitem2_valid Let_def)
  qed
  have j: "cross_transitivity_j_checked A nodes2 (nodes1 ! i) j acc =
             Inr (cross_transitivity_j (data A) nodes2 (nodes1 ! i) j acc)"
    if "i < length nodes1" "j < length nodes2" for i j acc
  proof -
    have "for_loop (cross_transitivity_k_checked A nodes2 (nodes1 ! i) (nodes2 ! j)) [0..<j] acc =
            Inr (fold (cross_transitivity_k (data A) nodes2 (nodes1 ! i) (nodes2 ! j)) [0..<j] acc)"
      by (rule for_loop_Inr) (simp add: k that)
    then show ?thesis
      using v1 [OF that(1)] v2 [OF that(2)]
      by (simp add: cross_transitivity_j_checked_def cross_transitivity_j_def getitem2_valid Let_def)
  qed
  have i: "cross_transitivity_i_checked A nodes1 nodes2 i acc =
             Inr (cross_transitivity_i (data A) nodes1 nodes2 i acc)"
    if "i < length nodes1" for i acc
    unfolding cross_transitivity_i_checked_def cross_transitivity_i_def Let_def
    by (rule for_loop_Inr) (simp add: j that)
  have "for_loop (cross_transitivity_i_checked A nodes1 nodes2) [0..<length nodes1] (0, 0) =
          Inr (cross_counts (data A) nodes1 nodes2)"
    unfolding cross_counts_def by (rule for_loop_Inr) (simp add: i)
  then show ?thesis
    by (simp add: cross_transitivity_checked_def cross_transitivity_def)
qed

lemma nsi_cross_transitivity_checked_refines:
  assumes "\<forall>x\<in>set nodes1 \<union> set nodes2. 0 \<le> x \<and> x < shape0 A \<and> x < shape1 A \<and> x < len w"
  shows "nsi_cross_transitivity_checked A nodes1 nodes2 w =
           nsi_cross_transitivity (data A) nodes1 nodes2 (item w)"
proof -
  have v1: "0 \<le> nodes1 ! i \<and> nodes1 ! i < shape0 A \<and> nodes1 ! i < shape1 A \<and> nodes1 ! i < len w"
    if "i < length nodes1" for i using assms that by simp
  have v2: "0 \<le> nodes2 ! j \<and> nodes2 ! j < shape0 A \<and> nodes2 ! j < shape1 A \<and> nodes2 ! j < len w"
    if "j < length nodes2" for j using assms that by simp
  have q: "nsi_cross_transitivity_q_checked A nodes2 w (nodes1 ! v) (nodes2 ! p) wv wp q acc =
             Inr (nsi_cross_transitivity_q (data A) nodes2 (item w) (nodes1 ! v) (nodes2 ! p) wv wp q acc)"
    if "v < length nodes1" "p < length nodes2" "q < length nodes2" for v p q wv wp acc
    using v1 [OF that(1)] v2 [OF that(2)] v2 [OF that(3)]
    by (cases acc)
       (simp add: nsi_cross_transitivity_q_checked_def nsi_cross_transitivity_q_def
          getitem2_valid getitem1_valid Let_def)
  have p: "nsi_cross_transitivity_p_checked A nodes2 w (nodes1 ! v) wv p acc =
             Inr (nsi_cross_transitivity_p (data A) nodes2 (item w) (nodes1 ! v) wv p acc)"
    if "v < length nodes1" "p < length nodes2" for v p wv acc
  proof -
    have "for_loop (nsi_cross_transitivity_q_checked A nodes2 w (nodes1 ! v) (nodes2 ! p) wv wp)
            [p + 1..<length nodes2] s =
          Inr (fold (nsi_cross_transitivity_q (data A) nodes2 (item w) (nodes1 ! v) (nodes2 ! p) wv wp)
            [p + 1..<length nodes2] s)" for wp s
      by (rule for_loop_Inr) (simp add: q that)
    then show ?thesis
      using v1 [OF that(1)] v2 [OF that(2)]
      by (cases acc)
         (simp add: nsi_cross_transitivity_p_checked_def nsi_cross_transitivity_p_def
            getitem2_valid getitem1_valid Let_def)
  qed
  have v: "nsi_cross_transitivity_v_checked A nodes1 nodes2 w v acc =
             Inr (nsi_cross_transitivity_v (data A) nodes1 nodes2 (item w) v acc)"
    if "v < length nodes1" for v acc
  proof -
    have "for_loop (nsi_cross_transitivity_p_checked A nodes2 w (nodes1 ! v) wv) [0..<length nodes2] acc =
          Inr (fold (nsi_cross_transitivity_p (data A) nodes2 (item w) (nodes1 ! v) wv)
            [0..<length nodes2] acc)" for wv
      by (rule for_loop_Inr) (simp add: p that)
    then show ?thesis
      using v1 [OF that]
      by (simp add: nsi_cross_transitivity_v_checked_def nsi_cross_transitivity_v_def
            getitem1_valid Let_def)
  qed
  have "for_loop (nsi_cross_transitivity_v_checked A nodes1 nodes2 w) [0..<length nodes1] (0, 0) =
          Inr (nsi_cross_sums (data A) nodes1 nodes2 (item w))"
    unfolding nsi_cross_sums_def by (rule for_loop_Inr) (simp add: v)
  then show ?thesis
    by (simp add: nsi_cross_transitivity_checked_def nsi_cross_transitivity_def)
qed

lemmas checked_eval_defs =
  cross_transitivity_checked_def cross_transitivity_i_checked_def cross_transitivity_j_checked_def
  cross_transitivity_k_checked_def nsi_cross_transitivity_checked_def
  nsi_cross_transitivity_v_checked_def nsi_cross_transitivity_p_checked_def
  nsi_cross_transitivity_q_checked_def getitem2_def getitem1_def buffer_index_def

text \<open>
  Claim C9, counterexample.  One input that is malformed in each of the four ways: the
  matrix is \<open>2 \<times> 3\<close>, so not square; \<open>A[0, 1] = 1\<close> and \<open>A[1, 0] = 0\<close>, so not
  symmetric; there are five weights for it; and the weights are negative.  With
  \<open>nodes1 = [0]\<close> and \<open>nodes2 = [1]\<close> neither kernel raises: the unweighted one returns
  0, the node-weighted one returns \<open>T1 / T2 = (-1) / (-1) = 1\<close>.
\<close>

theorem malformed_accepted:
  "shape0 one_way_2x3 \<noteq> shape1 one_way_2x3 \<and>
   data one_way_2x3 0 1 \<noteq> data one_way_2x3 1 0 \<and>
   len negative_weights \<noteq> shape0 one_way_2x3 \<and> len negative_weights \<noteq> shape1 one_way_2x3 \<and>
   item negative_weights 0 < 0 \<and> item negative_weights 1 < 0 \<and>
   cross_transitivity_checked one_way_2x3 [0] [1] = Inr 0 \<and>
   nsi_cross_transitivity_checked one_way_2x3 [0] [1] negative_weights = Inr 1"
  by (simp add: checked_eval_defs one_way_2x3_def negative_weights_def one_way_link_def Let_def)

text \<open>
  Claim C9, amended.  The two kernels check nothing about their input.  Whatever the
  shape of the matrix, whether it is symmetric or not, whatever the length of the
  weight vector and the sign of the weights: when every node id of \<open>nodes1\<close> and
  \<open>nodes2\<close> is an index of a row and of a column of the matrix and an index of the
  weight vector, \<open>_cross_transitivity\<close> returns the number of triangles over the number
  of triples (0 when there is no triple), and \<open>_nsi_cross_transitivity\<close> returns
  \<open>T1 / T2\<close>, or raises \<open>ZeroDivisionError\<close> when \<open>T2 = 0\<close>, with the four sums taken
  over the cells as they are given.
\<close>

theorem no_validation:
  assumes "\<forall>x\<in>set nodes1 \<union> set nodes2. 0 \<le> x \<and> x < shape0 A \<and> x < shape1 A \<and> x < len w"
  shows "cross_transitivity_checked A nodes1 nodes2 =
           Inr (if triple_sum (data A) nodes1 nodes2 = 0 then 0
                else real_of_int (triangle_sum (data A) nodes1 nodes2) /
                     real_of_int (triple_sum (data A) nodes1 nodes2)) \<and>
         nsi_cross_transitivity_checked A nodes1 nodes2 w =
           (if T2_sum (data A) nodes1 nodes2 (item w) = 0 then Inl ZeroDivisionError
            else Inr (T1_sum (data A) nodes1 nodes2 (item w) /
                      T2_sum (data A) nodes1 nodes2 (item w)))"
proof
  have "\<forall>x\<in>set nodes1 \<union> set nodes2. 0 \<le> x \<and> x < shape0 A \<and> x < shape1 A"
    using assms by blast
  then have "cross_transitivity_checked A nodes1 nodes2 =
               cross_transitivity (data A) nodes1 nodes2"
    by (rule cross_transitivity_checked_refines)
  also have "cross_counts (data A) nodes1 nodes2 =
               (triangle_sum (data A) nodes1 nodes2, triple_sum (data A) nodes1 nodes2)"
    unfolding triangle_sum_def triple_sum_def by (rule cross_counts_sum)
  then have "cross_transitivity (data A) nodes1 nodes2 =
           Inr (if triple_sum (data A) nodes1 nodes2 = 0 then 0
                else real_of_int (triangle_sum (data A) nodes1 nodes2) /
                     real_of_int (triple_sum (data A) nodes1 nodes2))"
    by (simp add: cross_transitivity_def)
  finally show "cross_transitivity_checked A nodes1 nodes2 =
           Inr (if triple_sum (data A) nodes1 nodes2 = 0 then 0
                else real_of_int (triangle_sum (data A) nodes1 nodes2) /
                     real_of_int (triple_sum (data A) nodes1 nodes2))" .
  have "nsi_cross_transitivity_checked A nodes1 nodes2 w =
          nsi_cross_transitivity (data A) nodes1 nodes2 (item w)"
    using assms by (rule nsi_cross_transitivity_checked_refines)
  also have "nsi_cross_sums (data A) nodes1 nodes2 (item w) =
               (T1_sum (data A) nodes1 nodes2 (item w), T2_sum (data A) nodes1 nodes2 (item w))"
    unfolding T1_sum_def T2_sum_def by (rule nsi_cross_sums_sum)
  then have "nsi_cross_transitivity (data A) nodes1 nodes2 (item w) =
           (if T2_sum (data A) nodes1 nodes2 (item w) = 0 then Inl ZeroDivisionError
            else Inr (T1_sum (data A) nodes1 nodes2 (item w) /
                      T2_sum (data A) nodes1 nodes2 (item w)))"
    by (simp add: nsi_cross_transitivity_def)
  finally show "nsi_cross_transitivity_checked A nodes1 nodes2 w =
           (if T2_sum (data A) nodes1 nodes2 (item w) = 0 then Inl ZeroDivisionError
            else Inr (T1_sum (data A) nodes1 nodes2 (item w) /
                      T2_sum (data A) nodes1 nodes2 (item w)))" .
qed

text \<open>
  Claim C9, amended, on a \<open>3 \<times> 4\<close> matrix that is not symmetric, with five
  weights, one of them negative: \<open>nodes1 = [0]\<close>, \<open>nodes2 = [1, 2]\<close>, one triple, which
  is a triangle, \<open>T1 = -13\<close> and \<open>T2 = -25\<close>; the kernels return 1 and 13/25.
\<close>

theorem no_validation_witness:
  "shape0 cycle_3x4 \<noteq> shape1 cycle_3x4 \<and>
   data cycle_3x4 0 2 \<noteq> data cycle_3x4 2 0 \<and>
   len mixed_weights \<noteq> shape0 cycle_3x4 \<and> len mixed_weights \<noteq> shape1 cycle_3x4 \<and>
   item mixed_weights 0 < 0 \<and>
   triangle_sum (data cycle_3x4) [0] [1, 2] = 1 \<and>
   triple_sum (data cycle_3x4) [0] [1, 2] = 1 \<and>
   T1_sum (data cycle_3x4) [0] [1, 2] (item mixed_weights) = - 13 \<and>
   T2_sum (data cycle_3x4) [0] [1, 2] (item mixed_weights) = - 25 \<and>
   cross_transitivity_checked cycle_3x4 [0] [1, 2] = Inr 1 \<and>
   nsi_cross_transitivity_checked cycle_3x4 [0] [1, 2] mixed_weights = Inr (13 / 25)"
proof -
  have r: "\<forall>x\<in>set [0] \<union> set [1, 2]. 0 \<le> x \<and> x < shape0 cycle_3x4 \<and> x < shape1 cycle_3x4 \<and>
             x < len mixed_weights"
    by (simp add: cycle_3x4_def mixed_weights_def)
  have s: "triangle_sum (data cycle_3x4) [0] [1, 2] = 1"
    "triple_sum (data cycle_3x4) [0] [1, 2] = 1"
    by (simp_all add: triangle_sum_def triple_sum_def cycle_3x4_def eval_nat_numeral
          del: of_bool_sum_rules)
  have t: "T1_sum (data cycle_3x4) [0] [1, 2] (item mixed_weights) = - 13"
    "T2_sum (data cycle_3x4) [0] [1, 2] (item mixed_weights) = - 25"
    by (simp_all add: T1_sum_def T2_sum_def cycle_3x4_def mixed_weights_def eval_nat_numeral
          del: of_bool_sum_rules)
  have m: "shape0 cycle_3x4 \<noteq> shape1 cycle_3x4 \<and> data cycle_3x4 0 2 \<noteq> data cycle_3x4 2 0 \<and>
    len mixed_weights \<noteq> shape0 cycle_3x4 \<and> len mixed_weights \<noteq> shape1 cycle_3x4 \<and>
    item mixed_weights 0 < 0"
    by (simp add: cycle_3x4_def mixed_weights_def)
  show ?thesis
    using no_validation [OF r] s t m by simp
qed

section \<open>Proofs: geomodel rewiring\<close>

lemma set_py_range [simp]: "set (py_range a b) = {a..<b}"
  by (auto simp: py_range_def)

lemma distinct_py_range [simp]: "distinct (py_range a b)"
  by (simp add: py_range_def)

lemma sum_list_py_range: "(\<Sum>j\<leftarrow>py_range a b. f j) = sum f {a..<b}"
  by (simp add: sum_list_distinct_conv_sum_set)

lemma sum_fun_upd:
  fixes f :: "int \<Rightarrow> int"
  assumes "finite S"
  shows "sum (f(y := v)) S = sum f S + (if y \<in> S then v - f y else 0)"
proof (cases "y \<in> S")
  case True
  then have "sum (f(y := v)) S = (f(y := v)) y + sum (f(y := v)) (S - {y})"
    using assms by (simp add: sum.remove)
  also have "sum (f(y := v)) (S - {y}) = sum f (S - {y})"
    by (rule sum.cong) auto
  also have "sum f (S - {y}) = sum f S - f y"
    using assms True by (simp add: sum.remove)
  finally show ?thesis using True by simp
next
  case False
  then have "sum (f(y := v)) S = sum f S" by (intro sum.cong) auto
  then show ?thesis using False by simp
qed

lemma set2_apply: "set2 M i j v x y = (if x = i \<and> y = j then v else M x y)"
  by (simp add: set2_def)

lemma set2_row: "set2 M i j v x = (if x = i then (M i)(j := v) else M x)"
  by (simp add: set2_def)

lemma sum_swap_two:
  fixes f :: "int \<Rightarrow> int"
  assumes "a \<noteq> b" "a \<in> {0..<N}" "b \<in> {0..<N}" "f a = 1" "f b = 0"
  shows "sum (f(a := 0, b := 1)) {0..<N} = sum f {0..<N}"
  using assms by (simp add: sum_fun_upd fun_upd_same fun_upd_other del: fun_upd_apply)

lemma degree_of_sum: "degree_of N A i = sum (A i) {0..<N}"
  by (simp add: degree_of_def sum_list_py_range)

lemma rewire_links_apply:
  assumes "s \<noteq> t" "k \<noteq> l" "s \<noteq> k" "s \<noteq> l" "t \<noteq> k" "t \<noteq> l"
  shows "rewire_links A s t k l x y =
     (if (x, y) \<in> {(s, t), (t, s), (k, l), (l, k)} then 0
      else if (x, y) \<in> {(s, l), (l, s), (t, k), (k, t)} then 1 else A x y)"
  using assms by (simp add: rewire_links_def set2_apply Let_def)

lemma rewire_links_row:
  assumes d: "s \<noteq> t" "k \<noteq> l" "s \<noteq> k" "s \<noteq> l" "t \<noteq> k" "t \<noteq> l"
  shows "rewire_links A s t k l i =
      (if i = s then (A s)(t := 0, l := 1)
       else if i = t then (A t)(s := 0, k := 1)
       else if i = k then (A k)(l := 0, t := 1)
       else if i = l then (A l)(k := 0, s := 1) else A i)"
  using d by (simp add: rewire_links_def set2_row Let_def)

lemma rewire_links_degree:
  assumes d: "s \<noteq> t" "k \<noteq> l" "s \<noteq> k" "s \<noteq> l" "t \<noteq> k" "t \<noteq> l"
    and r: "s \<in> {0..<N}" "t \<in> {0..<N}" "k \<in> {0..<N}" "l \<in> {0..<N}"
    and v: "A s t = 1" "A t s = 1" "A k l = 1" "A l k = 1"
           "A s l = 0" "A l s = 0" "A t k = 0" "A k t = 0"
  shows "degree_of N (rewire_links A s t k l) i = degree_of N A i"
proof -
  note two = sum_swap_two
  note row = rewire_links_row [OF d]
  have "rewire_links A s t k l s = (A s)(t := 0, l := 1)" by (simp add: row del: fun_upd_apply)
  then have s: "degree_of N (rewire_links A s t k l) s = degree_of N A s"
    unfolding degree_of_sum using two [OF d(6) r(2) r(4) v(1) v(5)] by simp
  have "rewire_links A s t k l t = (A t)(s := 0, k := 1)"
    using d by (simp add: row del: fun_upd_apply)
  then have t: "degree_of N (rewire_links A s t k l) t = degree_of N A t"
    unfolding degree_of_sum using two [OF d(3) r(1) r(3) v(2) v(7)] by simp
  have "rewire_links A s t k l k = (A k)(l := 0, t := 1)"
    using d by (simp add: row del: fun_upd_apply)
  then have k: "degree_of N (rewire_links A s t k l) k = degree_of N A k"
    unfolding degree_of_sum using two [OF not_sym [OF d(6)] r(4) r(2) v(3) v(8)] by simp
  have "rewire_links A s t k l l = (A l)(k := 0, s := 1)"
    using d by (simp add: row del: fun_upd_apply)
  then have l: "degree_of N (rewire_links A s t k l) l = degree_of N A l"
    unfolding degree_of_sum using two [OF not_sym [OF d(3)] r(3) r(1) v(4) v(6)] by simp
  have other: "degree_of N (rewire_links A s t k l) i = degree_of N A i"
    if "i \<noteq> s" "i \<noteq> t" "i \<noteq> k" "i \<noteq> l"
    unfolding degree_of_sum using that by (simp add: row del: fun_upd_apply)
  show ?thesis
    using s t k l other by blast
qed

lemma rewire_edges_apply:
  "rewire_edges edges e1 e2 s t k l f c =
     (if f = e2 \<and> c = 1 then t else if f = e2 \<and> c = 0 then k
      else if f = e1 \<and> c = 1 then l else if f = e1 \<and> c = 0 then s else edges f c)"
  by (simp add: rewire_edges_def set2_apply Let_def)

lemma adjacencyD:
  assumes "adjacency N A" "i \<in> {0..<N}" "j \<in> {0..<N}"
  shows "A i i = 0" "A i j = A j i" "A i j = 0 \<or> A i j = 1"
  using assms unfolding adjacency_def by auto

lemma edges_consistentD:
  assumes "edges_consistent N A E edges" "e \<in> {0..<E}"
  shows "edges e 0 \<in> {0..<N}" "edges e 1 \<in> {0..<N}" "A (edges e 0) (edges e 1) = 1"
  using assms unfolding edges_consistent_def by auto

lemma edges_simpleD:
  assumes "edges_simple E edges" "e \<in> {0..<E}" "f \<in> {0..<E}" "e \<noteq> f"
  shows "{edges e 0, edges e 1} \<noteq> {edges f 0, edges f 1}"
  using assms unfolding edges_simple_def by auto

lemma rewire_step:
  fixes edges :: "int \<Rightarrow> int \<Rightarrow> int"
  assumes adj: "adjacency N A" and con: "edges_consistent N A E edges"
    and simple: "edges_simple E edges"
    and e: "e1 \<in> {0..<E}" "e2 \<in> {0..<E}"
    and st: "s = edges e1 0" "t = edges e1 1" "k = edges e2 0" "l = edges e2 1"
    and acc: "s \<noteq> k" "s \<noteq> l" "t \<noteq> k" "t \<noteq> l" "A s l = 0" "A t k = 0"
  shows "adjacency N (rewire_links A s t k l)"
    and "edges_consistent N (rewire_links A s t k l) E (rewire_edges edges e1 e2 s t k l)"
    and "edges_simple E (rewire_edges edges e1 e2 s t k l)"
    and "degree_of N (rewire_links A s t k l) i = degree_of N A i"
proof -
  have r: "s \<in> {0..<N}" "t \<in> {0..<N}" "k \<in> {0..<N}" "l \<in> {0..<N}"
    using edges_consistentD [OF con e(1)] edges_consistentD [OF con e(2)] st by simp_all
  have one: "A s t = 1" "A k l = 1"
    using edges_consistentD [OF con e(1)] edges_consistentD [OF con e(2)] st by simp_all
  have v: "A t s = 1" "A l k = 1" "A l s = 0" "A k t = 0"
    using one acc adjacencyD(2) [OF adj] r by metis+
  have d: "s \<noteq> t" "k \<noteq> l"
    using one adjacencyD(1) [OF adj] r by force+
  define Z where "Z x y \<longleftrightarrow> (x, y) \<in> {(s, t), (t, s), (k, l), (l, k)}" for x y
  define U where "U x y \<longleftrightarrow> (x, y) \<in> {(s, l), (l, s), (t, k), (k, t)}" for x y
  have app: "rewire_links A s t k l x y = (if Z x y then 0 else if U x y then 1 else A x y)" for x y
    unfolding Z_def U_def by (rule rewire_links_apply [OF d acc(1-4)])
  have Zs: "Z x y = Z y x" and Us: "U x y = U y x" for x y
    unfolding Z_def U_def by auto
  have Zd: "\<not> Z x x" and Ud: "\<not> U x x" for x
    unfolding Z_def U_def using d acc by auto
  have Zset: "Z x y \<longleftrightarrow> {x, y} = {s, t} \<or> {x, y} = {k, l}"
    and Uset: "U x y \<longleftrightarrow> {x, y} = {s, l} \<or> {x, y} = {t, k}" for x y
    unfolding Z_def U_def by (auto simp: doubleton_eq_iff)
  have ZU: "Z s t" "Z k l" "U s l" "U k t" "\<not> Z s l" "\<not> Z k t"
    unfolding Z_def U_def using d acc by auto
  have ne: "e1 \<noteq> e2" using acc(1) st by auto
  have newrow: "rewire_edges edges e1 e2 s t k l e1 0 = s" "rewire_edges edges e1 e2 s t k l e1 1 = l"
     "rewire_edges edges e1 e2 s t k l e2 0 = k" "rewire_edges edges e1 e2 s t k l e2 1 = t"
    using ne by (simp_all add: rewire_edges_apply)
  have oldrow: "rewire_edges edges e1 e2 s t k l f c = edges f c" if "f \<noteq> e1" "f \<noteq> e2" for f c
    using that by (simp add: rewire_edges_apply)
  have A1: "A x y = 1 \<Longrightarrow> x \<in> {0..<N} \<Longrightarrow> y \<in> {0..<N} \<Longrightarrow> \<not> U x y" for x y
    unfolding U_def using acc(5,6) v(3,4) by auto
  show "adjacency N (rewire_links A s t k l)"
    unfolding adjacency_def set_py_range
  proof (intro ballI conjI)
    fix i assume "i \<in> {0..<N}"
    then show "rewire_links A s t k l i i = 0"
      using adjacencyD(1) [OF adj] Zd Ud by (simp add: app)
  next
    fix i j assume ij: "i \<in> {0..<N}" "j \<in> {0..<N}"
    show "rewire_links A s t k l i j = rewire_links A s t k l j i"
      using adjacencyD(2) [OF adj ij] Zs [of i j] Us [of i j] by (simp add: app)
    show "rewire_links A s t k l i j = 0 \<or> rewire_links A s t k l i j = 1"
      using adjacencyD(3) [OF adj ij] by (simp add: app)
  qed
  show "edges_consistent N (rewire_links A s t k l) E (rewire_edges edges e1 e2 s t k l)"
    unfolding edges_consistent_def set_py_range
  proof
    fix f assume f: "f \<in> {0..<E}"
    consider "f = e1" | "f = e2" | "f \<noteq> e1" "f \<noteq> e2" by blast
    then show "0 \<le> rewire_edges edges e1 e2 s t k l f 0 \<and> rewire_edges edges e1 e2 s t k l f 0 < N \<and>
        0 \<le> rewire_edges edges e1 e2 s t k l f 1 \<and> rewire_edges edges e1 e2 s t k l f 1 < N \<and>
        rewire_links A s t k l (rewire_edges edges e1 e2 s t k l f 0)
          (rewire_edges edges e1 e2 s t k l f 1) = 1"
    proof cases
      case 1
      then show ?thesis using r ZU by (simp add: newrow app)
    next
      case 2
      then show ?thesis using r ZU by (simp add: newrow app)
    next
      case 3
      have x: "edges f 0 \<in> {0..<N}" "edges f 1 \<in> {0..<N}" "A (edges f 0) (edges f 1) = 1"
        using edges_consistentD [OF con f] by simp_all
      have "{edges f 0, edges f 1} \<noteq> {s, t}" "{edges f 0, edges f 1} \<noteq> {k, l}"
        using edges_simpleD [OF simple f e(1)] edges_simpleD [OF simple f e(2)] 3 st by simp_all
      then have "\<not> Z (edges f 0) (edges f 1)"
        by (simp add: Zset)
      then show ?thesis using 3 x by (simp add: oldrow app)
    qed
  qed
  show "edges_simple E (rewire_edges edges e1 e2 s t k l)"
    unfolding edges_simple_def set_py_range
  proof (intro ballI impI)
    fix f g assume fg: "f \<in> {0..<E}" "g \<in> {0..<E}" "f \<noteq> g"
    have other: "{edges h 0, edges h 1} \<noteq> {s, l}" "{edges h 0, edges h 1} \<noteq> {k, t}"
                "{s, l} \<noteq> {edges h 0, edges h 1}" "{k, t} \<noteq> {edges h 0, edges h 1}"
      if "h \<in> {0..<E}" for h
    proof -
      have "\<not> U (edges h 0) (edges h 1)"
        using edges_consistentD [OF con that] by (intro A1) simp_all
      then have "{edges h 0, edges h 1} \<noteq> {s, l} \<and> {edges h 0, edges h 1} \<noteq> {t, k}"
        by (simp add: Uset)
      then show "{edges h 0, edges h 1} \<noteq> {s, l}" "{edges h 0, edges h 1} \<noteq> {k, t}"
                "{s, l} \<noteq> {edges h 0, edges h 1}" "{k, t} \<noteq> {edges h 0, edges h 1}"
        by (simp_all add: insert_commute eq_commute)
    qed
    have new: "{s, l} \<noteq> {k, t}" "{k, t} \<noteq> {s, l}"
      using acc d by (auto simp: doubleton_eq_iff)
    consider "f = e1" "g = e2" | "f = e2" "g = e1" | "f = e1" "g \<noteq> e1" "g \<noteq> e2"
      | "f = e2" "g \<noteq> e1" "g \<noteq> e2" | "g = e1" "f \<noteq> e1" "f \<noteq> e2"
      | "g = e2" "f \<noteq> e1" "f \<noteq> e2" | "f \<noteq> e1" "f \<noteq> e2" "g \<noteq> e1" "g \<noteq> e2"
      using fg(3) by blast
    then show "{rewire_edges edges e1 e2 s t k l f 0, rewire_edges edges e1 e2 s t k l f 1} \<noteq>
               {rewire_edges edges e1 e2 s t k l g 0, rewire_edges edges e1 e2 s t k l g 1}"
    proof cases
      case 1 then show ?thesis using new by (simp add: newrow)
    next
      case 2 then show ?thesis using new by (simp add: newrow)
    next
      case 3 then show ?thesis using other [OF fg(2)] by (simp add: newrow oldrow)
    next
      case 4 then show ?thesis using other [OF fg(2)] by (simp add: newrow oldrow)
    next
      case 5 then show ?thesis using other [OF fg(1)] by (simp add: newrow oldrow)
    next
      case 6 then show ?thesis using other [OF fg(1)] by (simp add: newrow oldrow)
    next
      case 7 then show ?thesis using edges_simpleD [OF simple fg] by (simp add: oldrow)
    qed
  qed
  show "degree_of N (rewire_links A s t k l) i = degree_of N A i"
    by (rule rewire_links_degree [OF d acc(1-4) r one(1) v(1) one(2) v(2) acc(5) v(3) acc(6) v(4)])
qed

lemma floor_draw:
  assumes "0 \<le> r" "r < 1" "0 < E"
  shows "\<lfloor>r * real_of_int E\<rfloor> \<in> {0..<E}"
proof -
  have "0 \<le> r * real_of_int E" using assms by simp
  moreover have "r * real_of_int E < real_of_int E" using assms by simp
  ultimately show ?thesis by (simp add: floor_less_iff)
qed

lemma rewire_loop_inv:
  assumes "rewire_loop iterations eps D E degree cond_len cond_deg i (A, edges) draws = Some (A', edges')"
    and "adjacency N A" "edges_consistent N A E edges" "edges_simple E edges"
    and "0 \<le> E"
    and "\<forall>(r1, r2)\<in>set draws. 0 \<le> r1 \<and> r1 < 1 \<and> 0 \<le> r2 \<and> r2 < 1"
  shows "adjacency N A' \<and> edges_consistent N A' E edges' \<and> edges_simple E edges' \<and>
         (\<forall>x. degree_of N A' x = degree_of N A x)"
  using assms
proof (induction draws arbitrary: i A edges)
  case Nil
  then show ?case by (simp split: if_splits)
next
  case (Cons d draws)
  obtain r1 r2 where d: "d = (r1, r2)" by (cases d)
  define e1 where "e1 = \<lfloor>r1 * real_of_int E\<rfloor>"
  define e2 where "e2 = \<lfloor>r2 * real_of_int E\<rfloor>"
  define s where "s = edges e1 0"
  define t where "t = edges e1 1"
  define k where "k = edges e2 0"
  define l where "l = edges e2 1"
  define acc where "acc \<longleftrightarrow> (s \<noteq> k \<and> s \<noteq> l \<and> t \<noteq> k \<and> t \<noteq> l) \<and> (A s l = 0 \<and> A t k = 0) \<and>
       (case cond_deg of None \<Rightarrow> True | Some c \<Rightarrow> c degree s t k l) \<and> cond_len D eps s t k l"
  have rest: "\<forall>(r1, r2)\<in>set draws. 0 \<le> r1 \<and> r1 < 1 \<and> 0 \<le> r2 \<and> r2 < 1"
    using Cons.prems(6) by simp
  have rr: "0 \<le> r1" "r1 < 1" "0 \<le> r2" "r2 < 1" using Cons.prems(6) d by simp_all
  show ?case
  proof (cases "i < iterations")
    case False
    then show ?thesis using Cons.prems by (simp add: d)
  next
    case running: True
    have unroll: "rewire_loop iterations eps D E degree cond_len cond_deg i (A, edges) (d # draws) =
       (if acc then rewire_loop iterations eps D E degree cond_len cond_deg (i + 1)
                   (rewire_links A s t k l, rewire_edges edges e1 e2 s t k l) draws
        else rewire_loop iterations eps D E degree cond_len cond_deg i (A, edges) draws)"
      using running unfolding d acc_def s_def t_def k_def l_def e1_def e2_def
      by (simp only: rewire_loop.simps Let_def if_True)
    show ?thesis
    proof (cases acc)
      case False
      then have "rewire_loop iterations eps D E degree cond_len cond_deg i (A, edges) draws
                 = Some (A', edges')"
        using Cons.prems(1) unroll by simp
      from Cons.IH [OF this Cons.prems(2-5) rest] show ?thesis .
    next
      case True
      then have run: "rewire_loop iterations eps D E degree cond_len cond_deg (i + 1)
                   (rewire_links A s t k l, rewire_edges edges e1 e2 s t k l) draws
                 = Some (A', edges')"
        using Cons.prems(1) unroll by simp
      have a: "s \<noteq> k" "s \<noteq> l" "t \<noteq> k" "t \<noteq> l" "A s l = 0" "A t k = 0"
        using True by (simp_all add: acc_def)
      have "E \<noteq> 0"
      proof
        assume "E = 0"
        then have "e1 = e2" by (simp add: e1_def e2_def)
        then show False using a(1) by (simp add: s_def k_def)
      qed
      then have "0 < E" using Cons.prems(5) by simp
      then have e: "e1 \<in> {0..<E}" "e2 \<in> {0..<E}"
        unfolding e1_def e2_def using rr by (simp_all only: floor_draw)
      note step = rewire_step [OF Cons.prems(2-4) e s_def t_def k_def l_def a]
      from Cons.IH [OF run step(1-3) Cons.prems(5) rest] step(4)
      show ?thesis by simp
    qed
  qed
qed

lemma link_count_cong:
  "(\<forall>x. degree_of N A' x = degree_of N A x) \<Longrightarrow> link_count N A' = link_count N A"
  by (simp add: link_count_def)

lemmas rewire_eval_defs =
  randomly_rewire_geomodel_I_def randomly_rewire_geomodel_II_def randomly_rewire_geomodel_III_def
  randomly_rewire_geomodel_def cond_deg_true_def cond_len_c1_def cond_len_c2_def cond_deg_corr_def
  adj_of_def rows_of_def

lemmas model_eval_defs =
  adjacency_def edges_consistent_def edges_simple_def degree_of_def link_count_def
  py_range_def upto.simps doubleton_eq_iff

text \<open>
  Claim C1, counterexample.  Eight nodes with the four links 0 - 1, 2 - 3, 4 - 5,
  6 - 7; the edge list has the four rows (0,1), (2,3), (0,1), (4,5), each naming a
  link of the matrix.  With two iterations and the draws choosing rows 0, 1 and then
  rows 2, 3, the first swap removes the link 0 - 1, and the second swap starts from
  the stale row 2 = (0,1): it removes only 4 - 5 and adds 0 - 5 and 1 - 4.  Node 0
  ends with degree 2 and the graph with 5 links.
\<close>

theorem rewire_duplicate_row_degrees:
  "adjacency 8 (adj_of [(0, 1), (2, 3), (4, 5), (6, 7)]) \<and>
   edges_consistent 8 (adj_of [(0, 1), (2, 3), (4, 5), (6, 7)]) 4
     (rows_of [(0, 1), (2, 3), (0, 1), (4, 5)]) \<and>
   degree_of 8 (adj_of [(0, 1), (2, 3), (4, 5), (6, 7)]) 0 = 1 \<and>
   link_count 8 (adj_of [(0, 1), (2, 3), (4, 5), (6, 7)]) = 4 \<and>
   map_option (\<lambda>(A', edges'). (degree_of 8 A' 0, link_count 8 A'))
     (randomly_rewire_geomodel_I 2 1 (adj_of [(0, 1), (2, 3), (4, 5), (6, 7)]) (\<lambda>_ _. 0) 4
        (rows_of [(0, 1), (2, 3), (0, 1), (4, 5)]) [(0, 1 / 4), (1 / 2, 3 / 4)]) = Some (2, 5)"
  by (simp add: rewire_eval_defs model_eval_defs rewire_links_def rewire_edges_def set2_apply
        del: set_upto)

text \<open>
  Claim C1, amended.  If the matrix is symmetric 0/1 with zero diagonal, every row of
  the edge list names a link of the matrix by two node ids in range, and no two rows
  name the same link (in either direction), then for any number of iterations and any
  conditions, when the kernel returns, every node has the degree it had before and
  the number of links is unchanged.
\<close>

theorem rewire_preserves_degrees:
  assumes "adjacency N A" and "edges_consistent N A E edges" and "edges_simple E edges"
    and "0 \<le> E"
    and "\<forall>(r1, r2)\<in>set draws. 0 \<le> r1 \<and> r1 < 1 \<and> 0 \<le> r2 \<and> r2 < 1"
    and "randomly_rewire_geomodel iterations eps A D E edges degree cond_len cond_deg draws
           = Some (A', edges')"
  shows "(\<forall>i. degree_of N A' i = degree_of N A i) \<and> link_count N A' = link_count N A"
proof -
  have "\<forall>i. degree_of N A' i = degree_of N A i"
    using rewire_loop_inv [OF assms(6) [unfolded randomly_rewire_geomodel_def] assms(1-5)]
    by simp
  then show ?thesis by (simp add: link_count_cong)
qed

text \<open>
  Claim C1, amended, on the links 0 - 1, 2 - 3 with the edge list (0,1), (2,3): one
  swap under condition C1 gives the links 0 - 3, 1 - 2.
\<close>

theorem rewire_preserves_degrees_witness:
  "randomly_rewire_geomodel_I 1 1 (adj_of [(0, 1), (2, 3)]) (\<lambda>_ _. 0) 2 (rows_of [(0, 1), (2, 3)])
       [(0, 1 / 2)] =
     Some (rewire_links (adj_of [(0, 1), (2, 3)]) 0 1 2 3,
           rewire_edges (rows_of [(0, 1), (2, 3)]) 0 1 0 1 2 3) \<and>
   (\<forall>i. degree_of 4 (rewire_links (adj_of [(0, 1), (2, 3)]) 0 1 2 3) i =
         degree_of 4 (adj_of [(0, 1), (2, 3)]) i) \<and>
   link_count 4 (rewire_links (adj_of [(0, 1), (2, 3)]) 0 1 2 3) = 2"
proof -
  let ?A = "adj_of [(0, 1), (2, 3)]" and ?R = "rows_of [(0, 1), (2, 3)]"
  have 1: "adjacency 4 ?A" by (simp add: rewire_eval_defs model_eval_defs del: set_upto)
  have 2: "edges_consistent 4 ?A 2 ?R" by (simp add: rewire_eval_defs model_eval_defs del: set_upto)
  have 3: "edges_simple 2 ?R" by (simp add: rewire_eval_defs model_eval_defs del: set_upto)
  have 4: "\<forall>(r1, r2)\<in>set [(0::real, 1 / 2 :: real)]. 0 \<le> r1 \<and> r1 < 1 \<and> 0 \<le> r2 \<and> r2 < 1"
    by simp
  have 5: "randomly_rewire_geomodel 1 1 ?A (\<lambda>_ _. 0) 2 ?R (\<lambda>_. 0) cond_len_c1 cond_deg_true
             [(0, 1 / 2)] = Some (rewire_links ?A 0 1 2 3, rewire_edges ?R 0 1 0 1 2 3)"
    by (simp add: rewire_eval_defs)
  have 6: "link_count 4 ?A = 2" by (simp add: rewire_eval_defs model_eval_defs)
  show ?thesis
    using rewire_preserves_degrees [OF 1 2 3 _ 4 5] 5 6
    by (simp add: randomly_rewire_geomodel_I_def)
qed

text \<open>
  Claim C6, counterexample.  Six nodes with the links 0 - 1, 2 - 3, 4 - 5 and the
  edge list (0,1), (2,3), (0,1).  One swap of rows 0 and 1 leaves row 2 = (0,1) naming
  a cell of the matrix that is now 0.
\<close>

theorem rewire_duplicate_row_stale:
  "adjacency 6 (adj_of [(0, 1), (2, 3), (4, 5)]) \<and>
   edges_consistent 6 (adj_of [(0, 1), (2, 3), (4, 5)]) 3 (rows_of [(0, 1), (2, 3), (0, 1)]) \<and>
   map_option (\<lambda>(A', edges'). (edges' 2 0, edges' 2 1, A' (edges' 2 0) (edges' 2 1)))
     (randomly_rewire_geomodel_I 1 1 (adj_of [(0, 1), (2, 3), (4, 5)]) (\<lambda>_ _. 0) 3
        (rows_of [(0, 1), (2, 3), (0, 1)]) [(0, 1 / 2)]) = Some (0, 1, 0)"
  by (simp add: rewire_eval_defs model_eval_defs rewire_links_def rewire_edges_def set2_apply
        del: set_upto)

text \<open>
  Claim C6, amended.  Under the hypotheses of the amended C1 (in particular an edge
  list without repeated links), when the kernel returns the matrix is still symmetric
  0/1 with zero diagonal, every row of the edge list names a link of the matrix, and
  the edge list still names no link twice.
\<close>

theorem rewire_preserves_invariant:
  assumes "adjacency N A" and "edges_consistent N A E edges" and "edges_simple E edges"
    and "0 \<le> E"
    and "\<forall>(r1, r2)\<in>set draws. 0 \<le> r1 \<and> r1 < 1 \<and> 0 \<le> r2 \<and> r2 < 1"
    and "randomly_rewire_geomodel iterations eps A D E edges degree cond_len cond_deg draws
           = Some (A', edges')"
  shows "adjacency N A' \<and> edges_consistent N A' E edges' \<and> edges_simple E edges'"
  using rewire_loop_inv [OF assms(6) [unfolded randomly_rewire_geomodel_def] assms(1-5)]
  by simp

text \<open>
  Claim C6, amended, through the entry point with the degree condition: the first
  pass draws the same row twice and is rejected, the second swaps rows 1 and 0.
\<close>

theorem rewire_preserves_invariant_witness:
  "randomly_rewire_geomodel_III 1 1 (adj_of [(0, 1), (2, 3)]) (\<lambda>_ _. 0) 2 (rows_of [(0, 1), (2, 3)])
       (\<lambda>_. 1) [(1 / 2, 1 / 2), (1 / 2, 0)] =
     Some (rewire_links (adj_of [(0, 1), (2, 3)]) 2 3 0 1,
           rewire_edges (rows_of [(0, 1), (2, 3)]) 1 0 2 3 0 1) \<and>
   adjacency 4 (rewire_links (adj_of [(0, 1), (2, 3)]) 2 3 0 1) \<and>
   edges_consistent 4 (rewire_links (adj_of [(0, 1), (2, 3)]) 2 3 0 1) 2
     (rewire_edges (rows_of [(0, 1), (2, 3)]) 1 0 2 3 0 1) \<and>
   edges_simple 2 (rewire_edges (rows_of [(0, 1), (2, 3)]) 1 0 2 3 0 1)"
proof -
  let ?A = "adj_of [(0, 1), (2, 3)]" and ?R = "rows_of [(0, 1), (2, 3)]"
  have 1: "adjacency 4 ?A" by (simp add: rewire_eval_defs model_eval_defs del: set_upto)
  have 2: "edges_consistent 4 ?A 2 ?R" by (simp add: rewire_eval_defs model_eval_defs del: set_upto)
  have 3: "edges_simple 2 ?R" by (simp add: rewire_eval_defs model_eval_defs del: set_upto)
  have 4: "\<forall>(r1, r2)\<in>set [(1 / 2 :: real, 1 / 2 :: real), (1 / 2, 0)].
             0 \<le> r1 \<and> r1 < 1 \<and> 0 \<le> r2 \<and> r2 < 1"
    by simp
  have 5: "randomly_rewire_geomodel 1 1 ?A (\<lambda>_ _. 0) 2 ?R (\<lambda>_. 1) cond_len_c2 (Some cond_deg_corr)
             [(1 / 2, 1 / 2), (1 / 2, 0)] = Some (rewire_links ?A 2 3 0 1, rewire_edges ?R 1 0 2 3 0 1)"
    by (simp add: rewire_eval_defs)
  show ?thesis
    using rewire_preserves_invariant [OF 1 2 3 _ 4 5] 5
    by (simp add: randomly_rewire_geomodel_III_def)
qed

section \<open>Proofs: cross links of interacting networks\<close>

lemma fold_product:
  "fold (\<lambda>i. fold (\<lambda>j. f i j) ys) xs = fold (\<lambda>(i, j). f i j) (List.product xs ys)"
proof (induction xs)
  case Nil
  show ?case by simp
next
  case (Cons x xs)
  have "fold (\<lambda>(i, j). f i j) (map (Pair x) ys) = fold (\<lambda>j. f x j) ys"
    by (simp add: fold_map comp_def)
  then show ?case using Cons by (simp add: comp_def)
qed

lemma overwrite_untouched:
  assumes "\<And>i j. (i, j) \<in> set ps \<Longrightarrow> (x, y) \<noteq> (nodes1 ! nat i, nodes2 ! nat j) \<and>
                             (x, y) \<noteq> (nodes2 ! nat j, nodes1 ! nat i)"
  shows "fold (\<lambda>(i, j). overwriteAdjacency_cell cross_A nodes1 nodes2 i j) ps A x y = A x y"
  using assms
proof (induction ps arbitrary: A)
  case Nil
  show ?case by simp
next
  case (Cons p ps)
  obtain i j where p: "p = (i, j)" by (cases p)
  have "fold (\<lambda>(i, j). overwriteAdjacency_cell cross_A nodes1 nodes2 i j) ps
          (overwriteAdjacency_cell cross_A nodes1 nodes2 i j A) x y
        = overwriteAdjacency_cell cross_A nodes1 nodes2 i j A x y"
    by (rule Cons.IH) (rule Cons.prems, simp)
  then have "fold (\<lambda>(i, j). overwriteAdjacency_cell cross_A nodes1 nodes2 i j) (p # ps) A x y
        = overwriteAdjacency_cell cross_A nodes1 nodes2 i j A x y"
    by (simp add: p)
  moreover have "(i, j) \<in> set (p # ps)" by (simp add: p)
  then have "(x, y) \<noteq> (nodes1 ! nat i, nodes2 ! nat j) \<and> (x, y) \<noteq> (nodes2 ! nat j, nodes1 ! nat i)"
    by (rule Cons.prems)
  then have "overwriteAdjacency_cell cross_A nodes1 nodes2 i j A x y = A x y"
    by (auto simp: overwriteAdjacency_cell_def set2_def Let_def)
  ultimately show ?case by simp
qed

lemma overwrite_written:
  assumes sep: "\<And>i j i' j'. (i, j) \<in> set ps \<Longrightarrow> (i', j') \<in> set ps \<Longrightarrow> (i, j) \<noteq> (i', j') \<Longrightarrow>
            (nodes1 ! nat i', nodes2 ! nat j') \<noteq> (nodes1 ! nat i, nodes2 ! nat j) \<and>
            (nodes1 ! nat i', nodes2 ! nat j') \<noteq> (nodes2 ! nat j, nodes1 ! nat i)"
    and mem: "(i, j) \<in> set ps"
  shows "fold (\<lambda>(i, j). overwriteAdjacency_cell cross_A nodes1 nodes2 i j) ps A
           (nodes1 ! nat i) (nodes2 ! nat j) = cross_A i j \<and>
         fold (\<lambda>(i, j). overwriteAdjacency_cell cross_A nodes1 nodes2 i j) ps A
           (nodes2 ! nat j) (nodes1 ! nat i) = cross_A i j"
  using assms
proof (induction ps arbitrary: A)
  case Nil
  then show ?case by simp
next
  case (Cons p ps)
  let ?W = "\<lambda>(i, j). overwriteAdjacency_cell cross_A nodes1 nodes2 i j"
  show ?case
  proof (cases "(i, j) \<in> set ps")
    case True
    have "fold ?W ps (?W p A) (nodes1 ! nat i) (nodes2 ! nat j) = cross_A i j \<and>
          fold ?W ps (?W p A) (nodes2 ! nat j) (nodes1 ! nat i) = cross_A i j"
      by (rule Cons.IH [OF _ True]) (rule Cons.prems(1), simp_all)
    then show ?thesis by simp
  next
    case False
    then have p: "p = (i, j)" using Cons.prems(2) by simp
    have away: "(nodes1 ! nat i', nodes2 ! nat j') \<noteq> (nodes1 ! nat i, nodes2 ! nat j) \<and>
                (nodes1 ! nat i', nodes2 ! nat j') \<noteq> (nodes2 ! nat j, nodes1 ! nat i)"
      if "(i', j') \<in> set ps" for i' j'
    proof (rule Cons.prems(1))
      show "(i, j) \<in> set (p # ps)" by (simp add: p)
      show "(i', j') \<in> set (p # ps)" using that by simp
      show "(i, j) \<noteq> (i', j')" using that False by auto
    qed
    have 1: "fold ?W ps (?W p A) (nodes1 ! nat i) (nodes2 ! nat j)
             = ?W p A (nodes1 ! nat i) (nodes2 ! nat j)"
      by (rule overwrite_untouched) (use away in fastforce)
    have 2: "fold ?W ps (?W p A) (nodes2 ! nat j) (nodes1 ! nat i)
             = ?W p A (nodes2 ! nat j) (nodes1 ! nat i)"
      by (rule overwrite_untouched) (use away in fastforce)
    have W: "?W p A (nodes1 ! nat i) (nodes2 ! nat j) = cross_A i j"
            "?W p A (nodes2 ! nat j) (nodes1 ! nat i) = cross_A i j"
      by (simp_all add: p overwriteAdjacency_cell_def set2_apply Let_def)
    show ?thesis
      unfolding fold_simps o_apply 1 2 by (rule conjI) (rule W)+
  qed
qed

lemma disjoint_neq: "x \<in> S \<Longrightarrow> y \<in> T \<Longrightarrow> S \<inter> T = {} \<Longrightarrow> x \<noteq> y"
  by blast

text \<open>
  Claim C5, amended.  When the first \<open>m\<close> entries of \<open>nodes1\<close> are pairwise
  different, the first \<open>n\<close> entries of \<open>nodes2\<close> are pairwise different, and the two
  share no node, then after \<open>overwriteAdjacency\<close> both \<open>A[nodes1[i], nodes2[j]]\<close> and
  \<open>A[nodes2[j], nodes1[i]]\<close> equal \<open>cross_A[i, j]\<close> for all \<open>i < m\<close>, \<open>j < n\<close>.
\<close>

theorem overwrite_restriction:
  assumes "m \<le> int (length nodes1)" and "n \<le> int (length nodes2)"
    and "distinct (take (nat m) nodes1)" and "distinct (take (nat n) nodes2)"
    and "set (take (nat m) nodes1) \<inter> set (take (nat n) nodes2) = {}"
  shows "\<forall>i\<in>{0..<m}. \<forall>j\<in>{0..<n}.
           overwriteAdjacency A cross_A nodes1 nodes2 m n (nodes1 ! nat i) (nodes2 ! nat j)
             = cross_A i j \<and>
           overwriteAdjacency A cross_A nodes1 nodes2 m n (nodes2 ! nat j) (nodes1 ! nat i)
             = cross_A i j"
proof (intro ballI)
  fix i j assume ij: "i \<in> {0..<m}" "j \<in> {0..<n}"
  let ?ps = "List.product (py_range 0 m) (py_range 0 n)"
  let ?t1 = "take (nat m) nodes1" and ?t2 = "take (nat n) nodes2"
  have n1: "nodes1 ! nat a = ?t1 ! nat a" "nat a < length ?t1"
    if "a \<in> {0..<m}" for a using that assms(1) by auto
  have n2: "nodes2 ! nat b = ?t2 ! nat b" "nat b < length ?t2"
    if "b \<in> {0..<n}" for b using that assms(2) by auto
  have inj1: "a = a'" if "a \<in> {0..<m}" "a' \<in> {0..<m}" "nodes1 ! nat a = nodes1 ! nat a'" for a a'
  proof -
    have "(?t1 ! nat a = ?t1 ! nat a') = (nat a = nat a')"
      by (rule nth_eq_iff_index_eq [OF assms(3) n1(2) [OF that(1)] n1(2) [OF that(2)]])
    then have "nat a = nat a'" using that(3) n1(1) [OF that(1)] n1(1) [OF that(2)] by simp
    then show ?thesis using that(1,2) by (simp add: eq_nat_nat_iff)
  qed
  have inj2: "b = b'" if "b \<in> {0..<n}" "b' \<in> {0..<n}" "nodes2 ! nat b = nodes2 ! nat b'" for b b'
  proof -
    have "(?t2 ! nat b = ?t2 ! nat b') = (nat b = nat b')"
      by (rule nth_eq_iff_index_eq [OF assms(4) n2(2) [OF that(1)] n2(2) [OF that(2)]])
    then have "nat b = nat b'" using that(3) n2(1) [OF that(1)] n2(1) [OF that(2)] by simp
    then show ?thesis using that(1,2) by (simp add: eq_nat_nat_iff)
  qed
  have disj: "nodes1 ! nat a \<noteq> nodes2 ! nat b" if "a \<in> {0..<m}" "b \<in> {0..<n}" for a b
  proof -
    have "?t1 ! nat a \<in> set ?t1" by (rule nth_mem [OF n1(2) [OF that(1)]])
    moreover have "?t2 ! nat b \<in> set ?t2" by (rule nth_mem [OF n2(2) [OF that(2)]])
    ultimately have "?t1 ! nat a \<noteq> ?t2 ! nat b" using assms(5) by (rule disjoint_neq)
    then show ?thesis using n1(1) [OF that(1)] n2(1) [OF that(2)] by simp
  qed
  have sep: "(nodes1 ! nat a', nodes2 ! nat b') \<noteq> (nodes1 ! nat a, nodes2 ! nat b) \<and>
              (nodes1 ! nat a', nodes2 ! nat b') \<noteq> (nodes2 ! nat b, nodes1 ! nat a)"
    if "(a, b) \<in> set ?ps" "(a', b') \<in> set ?ps" "(a, b) \<noteq> (a', b')"
    for a b a' b'
  proof -
    have r: "a \<in> {0..<m}" "b \<in> {0..<n}" "a' \<in> {0..<m}" "b' \<in> {0..<n}"
      using that(1,2) by simp_all
    have "a \<noteq> a' \<or> b \<noteq> b'" using that(3) by simp
    then have "nodes1 ! nat a' \<noteq> nodes1 ! nat a \<or> nodes2 ! nat b' \<noteq> nodes2 ! nat b"
      using inj1 [OF r(3) r(1)] inj2 [OF r(4) r(2)] by blast
    moreover have "nodes1 ! nat a' \<noteq> nodes2 ! nat b" by (rule disj [OF r(3) r(2)])
    ultimately show ?thesis by simp
  qed
  have mem: "(i, j) \<in> set ?ps" using ij by simp
  show "overwriteAdjacency A cross_A nodes1 nodes2 m n (nodes1 ! nat i) (nodes2 ! nat j)
             = cross_A i j \<and>
        overwriteAdjacency A cross_A nodes1 nodes2 m n (nodes2 ! nat j) (nodes1 ! nat i)
             = cross_A i j"
    unfolding overwriteAdjacency_def fold_product
    by (rule overwrite_written [OF sep mem])
qed

text \<open>
  Claim C5, counterexample.  With \<open>nodes1 = [0, 1]\<close> and \<open>nodes2 = [1, 0]\<close> (the two
  lists share their nodes) and \<open>cross_A[0, 0] = 1\<close> the only non-zero entry, the cell
  \<open>A[nodes1[0], nodes2[0]] = A[0, 1]\<close> is written again by the pass \<open>i = 1\<close>,
  \<open>j = 1\<close> and ends as \<open>cross_A[1, 1] = 0\<close>.
\<close>

theorem overwrite_shared_node:
  "overwriteAdjacency (\<lambda>_ _. 0) (matrix_of [(0, 0)]) [0, 1] [1, 0] 2 2 ([0, 1] ! 0) ([1, 0] ! 0) = 0 \<and>
   matrix_of [(0, 0)] 0 0 = 1"
  by (simp add: overwriteAdjacency_def overwriteAdjacency_cell_def py_range_def upto.simps
        set2_def matrix_of_def)

text \<open>
  Claim C5, amended, on \<open>nodes1 = [0, 1]\<close>, \<open>nodes2 = [2, 3]\<close> with the single cross
  link \<open>cross_A[0, 1] = 1\<close>.
\<close>

theorem overwrite_restriction_witness:
  "overwriteAdjacency (\<lambda>_ _. 0) (matrix_of [(0, 1)]) [0, 1] [2, 3] 2 2 0 3 = 1 \<and>
   overwriteAdjacency (\<lambda>_ _. 0) (matrix_of [(0, 1)]) [0, 1] [2, 3] 2 2 3 0 = 1 \<and>
   matrix_of [(0, 1)] 0 1 = 1"
proof -
  have "\<forall>i\<in>{0..<2}. \<forall>j\<in>{0..<2}.
           overwriteAdjacency (\<lambda>_ _. 0) (matrix_of [(0, 1)]) [0, 1] [2, 3] 2 2
             ([0, 1] ! nat i) ([2, 3] ! nat j) = matrix_of [(0, 1)] i j \<and>
           overwriteAdjacency (\<lambda>_ _. 0) (matrix_of [(0, 1)]) [0, 1] [2, 3] 2 2
             ([2, 3] ! nat j) ([0, 1] ! nat i) = matrix_of [(0, 1)] i j"
    by (rule overwrite_restriction) simp_all
  from this [rule_format, of 0 1] show ?thesis
    by (simp add: matrix_of_def)
qed

lemma swap_cross_links_matrix:
  "fst (swap_cross_links M L e1 e2) x y =
     (if x = L e2 0 \<and> y = L e1 1 then 1 else if x = L e1 0 \<and> y = L e2 1 then 1
      else if x = L e2 0 \<and> y = L e2 1 then 0 else if x = L e1 0 \<and> y = L e1 1 then 0
      else M x y)"
  by (simp add: swap_cross_links_def Let_def set2_apply)

lemma swap_cross_links_rows:
  "snd (swap_cross_links M L e1 e2) f c =
     (if f = e2 \<and> c = 1 then L e1 1 else if f = e1 \<and> c = 1 then L e2 1 else L f c)"
  by (simp add: swap_cross_links_def Let_def set2_apply)

lemma row_sum_sum: "row_sum n M a = sum (M a) {0..<n}"
  by (simp add: row_sum_def sum_list_py_range)

lemma col_sum_sum: "col_sum m M b = sum (\<lambda>a. M a b) {0..<m}"
  by (simp add: col_sum_def sum_list_py_range)

lemma cross_binaryD: "cross_binary m n M \<Longrightarrow> a \<in> {0..<m} \<Longrightarrow> b \<in> {0..<n} \<Longrightarrow> M a b = 0 \<or> M a b = 1"
  unfolding cross_binary_def by auto

lemma links_consistentD:
  assumes "links_consistent m n M ncl L" "e \<in> {0..<ncl}"
  shows "L e 0 \<in> {0..<m}" "L e 1 \<in> {0..<n}" "M (L e 0) (L e 1) = 1"
  using assms unfolding links_consistent_def by auto

lemma links_simpleD:
  assumes "links_simple ncl L" "e \<in> {0..<ncl}" "f \<in> {0..<ncl}" "e \<noteq> f"
  shows "L e 0 \<noteq> L f 0 \<or> L e 1 \<noteq> L f 1"
  using assms unfolding links_simple_def by auto

lemma swap_step:
  fixes L :: "int \<Rightarrow> int \<Rightarrow> int"
  assumes bin: "cross_binary m n M" and con: "links_consistent m n M ncl L"
    and simple: "links_simple ncl L"
    and e: "e1 \<in> {0..<ncl}" "e2 \<in> {0..<ncl}"
    and acc: "M (L e1 0) (L e2 1) = 0" "M (L e2 0) (L e1 1) = 0"
  shows "cross_binary m n (fst (swap_cross_links M L e1 e2))"
    and "links_consistent m n (fst (swap_cross_links M L e1 e2)) ncl (snd (swap_cross_links M L e1 e2))"
    and "links_simple ncl (snd (swap_cross_links M L e1 e2))"
    and "row_sum n (fst (swap_cross_links M L e1 e2)) x = row_sum n M x"
    and "col_sum m (fst (swap_cross_links M L e1 e2)) y = col_sum m M y"
proof -
  define a b c d where "a = L e1 0" and "b = L e1 1" and "c = L e2 0" and "d = L e2 1"
  define M' where "M' = fst (swap_cross_links M L e1 e2)"
  define L' where "L' = snd (swap_cross_links M L e1 e2)"
  have r: "a \<in> {0..<m}" "b \<in> {0..<n}" "c \<in> {0..<m}" "d \<in> {0..<n}"
    using links_consistentD [OF con e(1)] links_consistentD [OF con e(2)]
    by (simp_all add: a_def b_def c_def d_def)
  have one: "M a b = 1" "M c d = 1"
    using links_consistentD [OF con e(1)] links_consistentD [OF con e(2)]
    by (simp_all add: a_def b_def c_def d_def)
  have zero: "M a d = 0" "M c b = 0" using acc by (simp_all add: a_def b_def c_def d_def)
  have ac: "a \<noteq> c" using one zero by auto
  have bd: "b \<noteq> d" using one zero by auto
  have ne: "e1 \<noteq> e2" using ac by (auto simp: a_def c_def)
  have app: "M' x y = (if x = c \<and> y = b then 1 else if x = a \<and> y = d then 1
      else if x = c \<and> y = d then 0 else if x = a \<and> y = b then 0 else M x y)" for x y
    unfolding M'_def a_def b_def c_def d_def by (rule swap_cross_links_matrix)
  have rows: "L' f col = (if f = e2 \<and> col = 1 then b else if f = e1 \<and> col = 1 then d else L f col)"
    for f col
    unfolding L'_def b_def d_def by (rule swap_cross_links_rows)
  have new: "L' e1 0 = a" "L' e1 1 = d" "L' e2 0 = c" "L' e2 1 = b"
    using ne by (simp_all add: rows a_def c_def)
  have old: "L' f col = L f col" if "f \<noteq> e1" "f \<noteq> e2" for f col
    using that by (simp add: rows)
  have M1: "M' a d = 1" "M' c b = 1" using ac bd by (simp_all add: app)
  have keep: "M' x y = 1" if "M x y = 1" "(x, y) \<noteq> (a, b)" "(x, y) \<noteq> (c, d)" for x y
    using that by (auto simp: app)
  show "cross_binary m n (fst (swap_cross_links M L e1 e2))"
    unfolding M'_def [symmetric] cross_binary_def set_py_range
  proof (intro ballI)
    fix x y assume "x \<in> {0..<m}" "y \<in> {0..<n}"
    from cross_binaryD [OF bin this] show "M' x y = 0 \<or> M' x y = 1"
      by (simp add: app)
  qed
  show "links_consistent m n (fst (swap_cross_links M L e1 e2)) ncl (snd (swap_cross_links M L e1 e2))"
    unfolding M'_def [symmetric] L'_def [symmetric] links_consistent_def set_py_range
  proof
    fix f assume f: "f \<in> {0..<ncl}"
    consider "f = e1" | "f = e2" | "f \<noteq> e1" "f \<noteq> e2" by blast
    then show "0 \<le> L' f 0 \<and> L' f 0 < m \<and> 0 \<le> L' f 1 \<and> L' f 1 < n \<and> M' (L' f 0) (L' f 1) = 1"
    proof cases
      case 1 then show ?thesis using r M1 by (simp add: new)
    next
      case 2 then show ?thesis using r M1 by (simp add: new)
    next
      case 3
      have x: "L f 0 \<in> {0..<m}" "L f 1 \<in> {0..<n}" "M (L f 0) (L f 1) = 1"
        using links_consistentD [OF con f] by simp_all
      have "(L f 0, L f 1) \<noteq> (a, b)" "(L f 0, L f 1) \<noteq> (c, d)"
        using links_simpleD [OF simple f e(1) 3(1)] links_simpleD [OF simple f e(2) 3(2)]
        by (simp_all add: a_def b_def c_def d_def)
      from keep [OF x(3) this] show ?thesis using x 3 by (simp add: old)
    qed
  qed
  show "links_simple ncl (snd (swap_cross_links M L e1 e2))"
    unfolding L'_def [symmetric] links_simple_def set_py_range
  proof (intro ballI impI)
    fix f g assume fg: "f \<in> {0..<ncl}" "g \<in> {0..<ncl}" "f \<noteq> g"
    have other: "(L h 0, L h 1) \<noteq> (a, d)" "(L h 0, L h 1) \<noteq> (c, b)"
                "(a, d) \<noteq> (L h 0, L h 1)" "(c, b) \<noteq> (L h 0, L h 1)"
      if "h \<in> {0..<ncl}" for h
      using links_consistentD(3) [OF con that] zero by auto
    have nn: "(a, d) \<noteq> (c, b)" "(c, b) \<noteq> (a, d)" using ac by simp_all
    consider "f = e1" "g = e2" | "f = e2" "g = e1" | "f = e1" "g \<noteq> e1" "g \<noteq> e2"
      | "f = e2" "g \<noteq> e1" "g \<noteq> e2" | "g = e1" "f \<noteq> e1" "f \<noteq> e2"
      | "g = e2" "f \<noteq> e1" "f \<noteq> e2" | "f \<noteq> e1" "f \<noteq> e2" "g \<noteq> e1" "g \<noteq> e2"
      using fg(3) by blast
    then show "(L' f 0, L' f 1) \<noteq> (L' g 0, L' g 1)"
    proof cases
      case 1 then show ?thesis using nn by (simp add: new)
    next
      case 2 then show ?thesis using nn by (simp add: new)
    next
      case 3 then show ?thesis using other [OF fg(2)] by (simp add: new old)
    next
      case 4 then show ?thesis using other [OF fg(2)] by (simp add: new old)
    next
      case 5 then show ?thesis using other [OF fg(1)] by (simp add: new old)
    next
      case 6 then show ?thesis using other [OF fg(1)] by (simp add: new old)
    next
      case 7 then show ?thesis using links_simpleD [OF simple fg] by (simp add: old)
    qed
  qed
  have rowa: "M' a = (M a)(b := 0, d := 1)" using ac bd by (auto simp: app fun_eq_iff)
  have rowc: "M' c = (M c)(d := 0, b := 1)" using ac bd by (auto simp: app fun_eq_iff)
  have rowx: "M' x = M x" if "x \<noteq> a" "x \<noteq> c" for x using that by (auto simp: app fun_eq_iff)
  have "sum (M' x) {0..<n} = sum (M x) {0..<n}"
  proof -
    consider "x = a" | "x = c" | "x \<noteq> a" "x \<noteq> c" by blast
    then show ?thesis
    proof cases
      case 1 show ?thesis
        unfolding 1 rowa by (rule sum_swap_two [OF bd r(2) r(4) one(1) zero(1)])
    next
      case 2 show ?thesis
        unfolding 2 rowc by (rule sum_swap_two [OF not_sym [OF bd] r(4) r(2) one(2) zero(2)])
    next
      case 3 show ?thesis unfolding rowx [OF 3] ..
    qed
  qed
  then show "row_sum n (fst (swap_cross_links M L e1 e2)) x = row_sum n M x"
    by (simp add: row_sum_sum M'_def)
  have colb: "(\<lambda>x. M' x b) = (\<lambda>x. M x b)(a := 0, c := 1)" using ac bd by (auto simp: app fun_eq_iff)
  have cold: "(\<lambda>x. M' x d) = (\<lambda>x. M x d)(c := 0, a := 1)" using ac bd by (auto simp: app fun_eq_iff)
  have coly: "(\<lambda>x. M' x y) = (\<lambda>x. M x y)" if "y \<noteq> b" "y \<noteq> d" for y
    using that by (auto simp: app fun_eq_iff)
  have "sum (\<lambda>x. M' x y) {0..<m} = sum (\<lambda>x. M x y) {0..<m}"
  proof -
    consider "y = b" | "y = d" | "y \<noteq> b" "y \<noteq> d" by blast
    then show ?thesis
    proof cases
      case 1 show ?thesis
        unfolding 1 colb by (rule sum_swap_two [OF ac r(1) r(3) one(1) zero(2)])
    next
      case 2 show ?thesis
        unfolding 2 cold by (rule sum_swap_two [OF not_sym [OF ac] r(3) r(1) one(2) zero(1)])
    next
      case 3 show ?thesis unfolding coly [OF 3] ..
    qed
  qed
  then show "col_sum m (fst (swap_cross_links M L e1 e2)) y = col_sum m M y"
    by (simp add: col_sum_sum M'_def)
qed

lemma choose_cross_linksD:
  assumes "choose_cross_links M L draws = Some ((e1, e2), rest)"
  shows "(e1, e2) \<in> set draws \<and> set rest \<subseteq> set draws \<and>
         M (L e1 0) (L e2 1) = 0 \<and> M (L e2 0) (L e1 1) = 0"
  using assms
proof (induction draws)
  case Nil
  then show ?case by simp
next
  case (Cons p draws)
  obtain f1 f2 where p: "p = (f1, f2)" by (cases p)
  show ?case
  proof (cases "\<not> (M (L f1 0) (L f2 1) \<noteq> 0 \<or> M (L f2 0) (L f1 1) \<noteq> 0)")
    case True
    then show ?thesis using Cons.prems by (auto simp: p Let_def)
  next
    case False
    then have "choose_cross_links M L draws = Some ((e1, e2), rest)"
      using Cons.prems by (auto simp: p Let_def split: if_splits)
    from Cons.IH [OF this] show ?thesis by auto
  qed
qed

lemma rewire_cross_loop_inv:
  assumes "rewire_cross_loop swaps ncl (M, L) draws = Some (Inr (M', L'))"
    and "cross_binary m n M" "links_consistent m n M ncl L" "links_simple ncl L"
    and "\<forall>(e1, e2)\<in>set draws. e1 \<in> {0..<ncl} \<and> e2 \<in> {0..<ncl}"
  shows "cross_binary m n M' \<and> links_consistent m n M' ncl L' \<and> links_simple ncl L' \<and>
         (\<forall>x. row_sum n M' x = row_sum n M x) \<and> (\<forall>y. col_sum m M' y = col_sum m M y)"
  using assms
proof (induction swaps arbitrary: M L draws)
  case 0
  then show ?case by simp
next
  case (Suc swaps)
  have pos: "\<not> ncl \<le> 0" using Suc.prems(1) by (auto split: if_splits)
  obtain e1 e2 rest where ch: "choose_cross_links M L draws = Some ((e1, e2), rest)"
    using Suc.prems(1) pos by (auto split: option.splits)
  obtain M1 L1 where sw: "swap_cross_links M L e1 e2 = (M1, L1)"
    by (cases "swap_cross_links M L e1 e2")
  have run: "rewire_cross_loop swaps ncl (M1, L1) rest = Some (Inr (M', L'))"
    using Suc.prems(1) pos ch sw by simp
  note ch' = choose_cross_linksD [OF ch]
  have e: "e1 \<in> {0..<ncl}" "e2 \<in> {0..<ncl}" using ch' Suc.prems(5) by auto
  have rest: "\<forall>(e1, e2)\<in>set rest. e1 \<in> {0..<ncl} \<and> e2 \<in> {0..<ncl}"
    using ch' Suc.prems(5) by auto
  have acc: "M (L e1 0) (L e2 1) = 0" "M (L e2 0) (L e1 1) = 0" using ch' by simp_all
  note step = swap_step [OF Suc.prems(2-4) e acc, unfolded sw fst_conv snd_conv]
  from Suc.IH [OF run step(1-3) rest] step(4,5) show ?case by simp
qed

lemma entry_total_cong:
  "(\<forall>x. row_sum n M' x = row_sum n M x) \<Longrightarrow> entry_total m n M' = entry_total m n M"
  by (simp add: entry_total_def)

lemmas cross_links_eval_defs =
  randomlyRewireCrossLinks_def swap_cross_links_def matrix_of_def rows_of_def set2_def
  cross_binary_def links_consistent_def links_simple_def row_sum_def col_sum_def entry_total_def
  py_range_def upto.simps

text \<open>
  Claim C10, counterexample.  A 3 x 3 cross-adjacency matrix with the 1-entries (0,0),
  (1,1), (2,2), and the list of cross links (0,0), (0,0), (1,1): every row names a
  1-entry.  One swap of rows 0 and 2 clears the entries (0,0) and (1,1) and sets (0,1)
  and (1,0); row 1 still reads (0,0), which is now a 0-entry.
\<close>

theorem cross_links_repeated_row:
  "cross_binary 3 3 (matrix_of [(0, 0), (1, 1), (2, 2)]) \<and>
   links_consistent 3 3 (matrix_of [(0, 0), (1, 1), (2, 2)]) 3 (rows_of [(0, 0), (0, 0), (1, 1)]) \<and>
   entry_total 3 3 (matrix_of [(0, 0), (1, 1), (2, 2)]) = 3 \<and>
   map_option (map_sum id (\<lambda>(A', cross_A', cross_links').
       (cross_links' 1 0, cross_links' 1 1, cross_A' (cross_links' 1 0) (cross_links' 1 1))))
     (randomlyRewireCrossLinks (\<lambda>_ _. 0) (matrix_of [(0, 0), (1, 1), (2, 2)])
        (rows_of [(0, 0), (0, 0), (1, 1)]) [0, 1, 2] [3, 4, 5] 3 1 [(0, 2)]) = Some (Inr (0, 0, 0))"
  by (simp add: cross_links_eval_defs del: set_upto)

text \<open>
  Claim C10, amended.  If the cross-adjacency matrix is 0/1, every row of the list of
  cross links names a 1-entry by indices in range, and no two rows are equal, then
  when \<open>_randomlyRewireCrossLinks\<close> returns, the number of 1-entries, every row sum
  and every column sum of the cross-adjacency matrix are what they were, the matrix is
  still 0/1, every row of the list still names a 1-entry, and no two rows are equal.
\<close>

theorem cross_links_swaps_preserve:
  assumes "cross_binary m n cross_A" and "links_consistent m n cross_A number_cross_links cross_links"
    and "links_simple number_cross_links cross_links"
    and "\<forall>(e1, e2)\<in>set draws. e1 \<in> {0..<number_cross_links} \<and> e2 \<in> {0..<number_cross_links}"
    and "randomlyRewireCrossLinks A cross_A cross_links nodes1 nodes2 number_cross_links
           number_swaps draws = Some (Inr (A', cross_A', cross_links'))"
  shows "entry_total m n cross_A' = entry_total m n cross_A \<and>
         (\<forall>a. row_sum n cross_A' a = row_sum n cross_A a) \<and>
         (\<forall>b. col_sum m cross_A' b = col_sum m cross_A b) \<and>
         cross_binary m n cross_A' \<and>
         links_consistent m n cross_A' number_cross_links cross_links' \<and>
         links_simple number_cross_links cross_links'"
proof -
  have "rewire_cross_loop (nat number_swaps) number_cross_links (cross_A, cross_links) draws
          = Some (Inr (cross_A', cross_links'))"
    using assms(5) unfolding randomlyRewireCrossLinks_def Let_def
    by (auto split: option.splits sum.splits)
  from rewire_cross_loop_inv [OF this assms(1-4)] show ?thesis
    by (simp add: entry_total_cong)
qed

text \<open>
  Claim C10, amended, on the 1-entries (0,0), (1,1) listed once each: the first draw
  picks row 0 twice and is repeated, the second swaps the end points of rows 0 and 1.
\<close>

theorem cross_links_swaps_preserve_witness:
  "randomlyRewireCrossLinks (\<lambda>_ _. 0) (matrix_of [(0, 0), (1, 1)]) (rows_of [(0, 0), (1, 1)])
       [0, 1] [2, 3] 2 1 [(0, 0), (0, 1)] =
     Some (Inr (overwriteAdjacency (\<lambda>_ _. 0)
                  (fst (swap_cross_links (matrix_of [(0, 0), (1, 1)]) (rows_of [(0, 0), (1, 1)]) 0 1))
                  [0, 1] [2, 3] 2 2,
                swap_cross_links (matrix_of [(0, 0), (1, 1)]) (rows_of [(0, 0), (1, 1)]) 0 1)) \<and>
   entry_total 2 2 (fst (swap_cross_links (matrix_of [(0, 0), (1, 1)]) (rows_of [(0, 0), (1, 1)]) 0 1)) = 2 \<and>
   links_consistent 2 2
     (fst (swap_cross_links (matrix_of [(0, 0), (1, 1)]) (rows_of [(0, 0), (1, 1)]) 0 1)) 2
     (snd (swap_cross_links (matrix_of [(0, 0), (1, 1)]) (rows_of [(0, 0), (1, 1)]) 0 1))"
proof -
  let ?M = "matrix_of [(0, 0), (1, 1)]" and ?L = "rows_of [(0, 0), (1, 1)]"
  have 1: "cross_binary 2 2 ?M" by (simp add: cross_links_eval_defs del: set_upto)
  have 2: "links_consistent 2 2 ?M 2 ?L" by (simp add: cross_links_eval_defs del: set_upto)
  have 3: "links_simple 2 ?L" by (simp add: cross_links_eval_defs del: set_upto)
  have 4: "\<forall>(e1, e2)\<in>set [(0::int, 0::int), (0, 1)]. e1 \<in> {0..<2} \<and> e2 \<in> {0..<2}" by simp
  have 5: "randomlyRewireCrossLinks (\<lambda>_ _. 0) ?M ?L [0, 1] [2, 3] 2 1 [(0, 0), (0, 1)] =
     Some (Inr (overwriteAdjacency (\<lambda>_ _. 0) (fst (swap_cross_links ?M ?L 0 1)) [0, 1] [2, 3] 2 2,
                fst (swap_cross_links ?M ?L 0 1), snd (swap_cross_links ?M ?L 0 1)))"
    by (simp add: randomlyRewireCrossLinks_def matrix_of_def rows_of_def split: prod.splits)
  have 6: "entry_total 2 2 ?M = 2" by (simp add: cross_links_eval_defs)
  show ?thesis
    using cross_links_swaps_preserve [OF 1 2 3 4 5] 5 6 by simp
qed

section \<open>Proofs: local cliquishness\<close>













lemma finite_neighbours [simp]: "finite (neighbours N A i)"
  by (rule finite_subset [of _ "{0..<N}"]) (auto simp: neighbours_def)






















section \<open>Proofs: current-flow betweenness\<close>

lemma fold_cond_add:
  fixes g :: "int \<Rightarrow> real"
  assumes "\<And>x a. step x a = (if P x then a + g x else a)"
  shows "fold step (py_range 0 n) a = a + sum g {x \<in> {0..<n}. P x}"
proof -
  have "fold step xs a = a + (\<Sum>x\<leftarrow>xs. if P x then g x else 0)" for xs
    using assms by (induction xs arbitrary: a) (simp_all add: add.assoc)
  then have "fold step (py_range 0 n) a = a + (\<Sum>x\<in>{0..<n}. if P x then g x else 0)"
    by (simp add: sum_list_py_range)
  also have "(\<Sum>x\<in>{0..<n}. if P x then g x else 0) = sum g {x \<in> {0..<n}. P x}"
    by (rule sum.inter_filter [symmetric]) simp
  finally show ?thesis .
qed

lemma newman_t_fold:
  "fold (mpi_newman_betweenness_t V i j d) (py_range 0 s) 0 =
     (\<Sum>t\<in>{0..<s} - {i}. \<bar>d - V i t + V j t\<bar>)"
proof -
  have "fold (mpi_newman_betweenness_t V i j d) (py_range 0 s) 0 =
          0 + sum (\<lambda>t. \<bar>d - V i t + V j t\<bar>) {t \<in> {0..<s}. i \<noteq> t}"
    by (rule fold_cond_add) (simp add: mpi_newman_betweenness_t_def)
  also have "{t \<in> {0..<s}. i \<noteq> t} = {0..<s} - {i}" by auto
  finally show ?thesis by simp
qed

lemma newman_s_fold:
  "fold (mpi_newman_betweenness_s V i j) (py_range 0 N) 0 =
     (\<Sum>s\<in>{0..<N} - {i}. \<Sum>t\<in>{0..<s} - {i}. \<bar>V i s - V j s - V i t + V j t\<bar>)"
proof -
  have "fold (mpi_newman_betweenness_s V i j) (py_range 0 N) 0 =
          0 + sum (\<lambda>s. \<Sum>t\<in>{0..<s} - {i}. \<bar>V i s - V j s - V i t + V j t\<bar>) {s \<in> {0..<N}. i \<noteq> s}"
    by (rule fold_cond_add) (simp add: mpi_newman_betweenness_s_def newman_t_fold Let_def)
  also have "{s \<in> {0..<N}. i \<noteq> s} = {0..<N} - {i}" by auto
  finally show ?thesis by simp
qed

lemma fold_entry_add:
  fixes h :: "int \<Rightarrow> real"
  assumes "\<And>x tb. step x tb = tb[k := tb ! k + h x]"
  shows "fold step xs tb = tb[k := tb ! k + sum_list (map h xs)]"
  using assms
proof (induction xs arbitrary: tb)
  case Nil
  show ?case by simp
next
  case (Cons x xs)
  show ?case
  proof (cases "k < length tb")
    case True
    then show ?thesis using Cons by (simp add: add.assoc)
  next
    case False
    then show ?thesis using Cons by (simp add: list_update_beyond)
  qed
qed

lemma newman_i_entry:
  assumes "\<forall>j\<in>{0..<N}. this_A i_rel j = 0 \<or> this_A i_rel j = 1"
  shows "mpi_newman_betweenness_i this_A V N start_i i_rel tb =
     tb[nat i_rel := tb ! nat i_rel + newman_sum this_A V N start_i (i_rel + start_i)]"
proof -
  let ?i = "i_rel + start_i"
  let ?S = "\<lambda>j. \<Sum>s\<in>{0..<N} - {?i}. \<Sum>t\<in>{0..<s} - {?i}. \<bar>V ?i s - V j s - V ?i t + V j t\<bar>"
  let ?h = "\<lambda>j. if this_A i_rel j \<noteq> 0 then ?S j else 0"
  have step: "mpi_newman_betweenness_j this_A V N i_rel ?i j tb =
                tb[nat i_rel := tb ! nat i_rel + ?h j]" for j tb
    by (simp add: mpi_newman_betweenness_j_def newman_s_fold Let_def)
  have "fold (mpi_newman_betweenness_j this_A V N i_rel ?i) (py_range 0 N) tb =
          tb[nat i_rel := tb ! nat i_rel + sum_list (map ?h (py_range 0 N))]"
    by (rule fold_entry_add) (rule step)
  also have "sum_list (map ?h (py_range 0 N)) = (\<Sum>j\<in>{0..<N}. ?h j)"
    by (rule sum_list_py_range)
  also have "\<dots> = sum ?S {j \<in> {0..<N}. this_A i_rel j \<noteq> 0}"
    by (rule sum.inter_filter [symmetric]) simp
  also have "{j \<in> {0..<N}. this_A i_rel j \<noteq> 0} = {j \<in> {0..<N}. this_A i_rel j = 1}"
    using assms by force
  finally show ?thesis
    by (simp add: mpi_newman_betweenness_i_def newman_sum_def Let_def)
qed

lemma newman_fold_rows:
  assumes "\<forall>i_rel\<in>set xs. 0 \<le> i_rel \<and> (\<forall>j\<in>{0..<N}. this_A i_rel j = 0 \<or> this_A i_rel j = 1)"
    and "distinct xs"
  shows "length (fold (mpi_newman_betweenness_i this_A V N start_i) xs tb) = length tb \<and>
         (\<forall>k<length tb. fold (mpi_newman_betweenness_i this_A V N start_i) xs tb ! k =
            tb ! k + (if int k \<in> set xs then newman_sum this_A V N start_i (int k + start_i) else 0))"
  using assms
proof (induction xs arbitrary: tb)
  case Nil
  show ?case by simp
next
  case (Cons x xs)
  let ?tb = "tb[nat x := tb ! nat x + newman_sum this_A V N start_i (x + start_i)]"
  have x: "0 \<le> x" "x \<notin> set xs" using Cons.prems by simp_all
  have step: "mpi_newman_betweenness_i this_A V N start_i x tb = ?tb"
    by (rule newman_i_entry) (use Cons.prems(1) in simp)
  have IH: "length (fold (mpi_newman_betweenness_i this_A V N start_i) xs ?tb) = length ?tb \<and>
         (\<forall>k<length ?tb. fold (mpi_newman_betweenness_i this_A V N start_i) xs ?tb ! k =
            ?tb ! k + (if int k \<in> set xs then newman_sum this_A V N start_i (int k + start_i) else 0))"
    by (rule Cons.IH) (use Cons.prems in simp_all)
  have unroll: "fold (mpi_newman_betweenness_i this_A V N start_i) (x # xs) tb =
          fold (mpi_newman_betweenness_i this_A V N start_i) xs ?tb"
    by (simp add: step)
  show ?case
    unfolding unroll
  proof (intro conjI allI impI)
    show "length (fold (mpi_newman_betweenness_i this_A V N start_i) xs ?tb) = length tb"
      using IH by simp
    fix k assume k: "k < length tb"
    then have "fold (mpi_newman_betweenness_i this_A V N start_i) xs ?tb ! k =
            ?tb ! k + (if int k \<in> set xs then newman_sum this_A V N start_i (int k + start_i) else 0)"
      using IH by simp
    moreover have "?tb ! k = tb ! k + (if int k = x then newman_sum this_A V N start_i (x + start_i) else 0)"
      using k x(1) by (auto simp: nth_list_update)
    moreover have "int k = x \<Longrightarrow> int k \<notin> set xs" using x(2) by simp
    ultimately show "fold (mpi_newman_betweenness_i this_A V N start_i) xs ?tb ! k =
       tb ! k + (if int k \<in> set (x # xs) then newman_sum this_A V N start_i (int k + start_i) else 0)"
      by auto
  qed
qed

text \<open>
  Claim C8.  For \<open>start_i \<le> end_i\<close> and a 0/1 matrix \<open>this_A\<close>, the kernel returns a
  vector of length \<open>end_i - start_i\<close> together with \<open>start_i\<close> and \<open>end_i\<close>; its entry
  for the source node \<open>i\<close> in \<open>[start_i, end_i)\<close> is the sum, over the \<open>j\<close> with
  \<open>this_A[i - start_i, j] = 1\<close> and the pairs \<open>t < s\<close> with \<open>s \<noteq> i\<close>, \<open>t \<noteq> i\<close>, of
  \<open>|V[i,s] - V[j,s] - V[i,t] + V[j,t]|\<close>.  The arguments are only read: the model
  function takes them as values and returns the result alone.
\<close>

theorem mpi_newman_betweenness_value:
  assumes "start_i \<le> end_i"
    and "\<forall>i_rel\<in>{0..<end_i - start_i}. \<forall>j\<in>{0..<N}. this_A i_rel j = 0 \<or> this_A i_rel j = 1"
  shows "\<exists>this_betweenness.
           mpi_newman_betweenness this_A V N start_i end_i = Inr (this_betweenness, start_i, end_i) \<and>
           length this_betweenness = nat (end_i - start_i) \<and>
           (\<forall>i\<in>{start_i..<end_i}.
              this_betweenness ! nat (i - start_i) = newman_sum this_A V N start_i i)"
proof -
  let ?n = "end_i - start_i"
  let ?bt = "fold (mpi_newman_betweenness_i this_A V N start_i) (py_range 0 ?n) (replicate (nat ?n) 0)"
  have rows: "\<forall>i_rel\<in>set (py_range 0 ?n). 0 \<le> i_rel \<and>
                (\<forall>j\<in>{0..<N}. this_A i_rel j = 0 \<or> this_A i_rel j = 1)"
    using assms(2) by simp
  note fold = newman_fold_rows [OF rows distinct_py_range, of V start_i "replicate (nat ?n) 0"]
  have res: "mpi_newman_betweenness this_A V N start_i end_i = Inr (?bt, start_i, end_i)"
    using assms(1) by (simp add: mpi_newman_betweenness_def Let_def)
  have len: "length ?bt = nat ?n" using fold by simp
  have val: "?bt ! nat (i - start_i) = newman_sum this_A V N start_i i" if "i \<in> {start_i..<end_i}" for i
  proof -
    have k: "nat (i - start_i) < length (replicate (nat ?n) (0::real))" using that by auto
    have mem: "int (nat (i - start_i)) \<in> set (py_range 0 ?n)" using that by auto
    have "?bt ! nat (i - start_i) = replicate (nat ?n) 0 ! nat (i - start_i) +
            (if int (nat (i - start_i)) \<in> set (py_range 0 ?n)
             then newman_sum this_A V N start_i (int (nat (i - start_i)) + start_i) else 0)"
      using fold k by blast
    also have "\<dots> = newman_sum this_A V N start_i i"
      using that k by (simp only: mem if_True) auto
    finally show ?thesis .
  qed
  show ?thesis using res len val by blast
qed

text \<open>
  Claim C8 on one row of a 3-node graph with \<open>V[i,j] = i j\<close>: the only term is
  \<open>j = 1\<close>, \<open>s = 2\<close>, \<open>t = 1\<close>, of value \<open>|0 - 2 - 0 + 1| = 1\<close>.
\<close>

theorem mpi_newman_betweenness_value_witness:
  "mpi_newman_betweenness (matrix_of [(0, 1)]) (\<lambda>i j. real_of_int (i * j)) 3 0 1 = Inr ([1], 0, 1) \<and>
   newman_sum (matrix_of [(0, 1)]) (\<lambda>i j. real_of_int (i * j)) 3 0 0 = 1"
proof -
  have 1: "\<forall>i_rel\<in>{0..<1 - 0}. \<forall>j\<in>{0..<3}. matrix_of [(0, 1)] i_rel j = 0 \<or> matrix_of [(0, 1)] i_rel j = 1"
    by (simp add: matrix_of_def)
  have 2: "mpi_newman_betweenness (matrix_of [(0, 1)]) (\<lambda>i j. real_of_int (i * j)) 3 0 1 = Inr ([1], 0, 1)"
    by (simp add: mpi_newman_betweenness_def mpi_newman_betweenness_i_def mpi_newman_betweenness_j_def
          mpi_newman_betweenness_s_def mpi_newman_betweenness_t_def matrix_of_def py_range_def
          upto.simps Let_def)
  obtain bt where bt: "Inr ([1], 0, 1) = Inr (bt, 0::int, 1::int)"
      "\<forall>i\<in>{0..<1}. bt ! nat (i - 0) = newman_sum (matrix_of [(0, 1)]) (\<lambda>i j. real_of_int (i * j)) 3 0 i"
    using mpi_newman_betweenness_value [of 0 1 3 "matrix_of [(0, 1)]" "\<lambda>i j. real_of_int (i * j)", OF _ 1]
    unfolding 2 by auto
  then have "bt = [1]" by simp
  with bt(2) have "newman_sum (matrix_of [(0, 1)]) (\<lambda>i j. real_of_int (i * j)) 3 0 0 = 1" by simp
  with 2 show ?thesis by simp
qed

section \<open>Proofs: forward phase of the betweenness search\<close>

lemma py_range_snoc:
  assumes "a \<le> b"
  shows "py_range a (b + 1) = py_range a b @ [b]"
  using assms by (simp add: py_range_def upto_rec2)

lemma length_py_range [simp]: "length (py_range a b) = nat (b - a)"
  by (simp add: py_range_def)

lemma nth_py_range: "0 \<le> m \<Longrightarrow> m < b \<Longrightarrow> py_range 0 b ! nat m = m"
  by (simp add: py_range_def)

lemma queued_nth:
  assumes "0 \<le> m" "m < queue_len st"
  shows "queued st ! nat m = queue st m"
  using assms by (simp add: queued_def nth_py_range)

lemma length_queued [simp]: "length (queued st) = nat (queue_len st)"
  by (simp add: queued_def)

lemma queued_mem:
  assumes "0 \<le> m" "m < queue_len st"
  shows "queue st m \<in> set (queued st)"
  using assms by (auto simp: queued_def)

text \<open>What one neighbour step does to the four fields the invariant reads.\<close>

lemma neighbor_fields:
  "qi (nsi_betweenness_neighbor w offsets flat_neighbors i next_d x st) = qi st"
  "next_d < distances_to_j st (flat_neighbors x) \<Longrightarrow>
     distances_to_j (nsi_betweenness_neighbor w offsets flat_neighbors i next_d x st) =
       (distances_to_j st)(flat_neighbors x := next_d) \<and>
     queue (nsi_betweenness_neighbor w offsets flat_neighbors i next_d x st) =
       (queue st)(queue_len st := flat_neighbors x) \<and>
     queue_len (nsi_betweenness_neighbor w offsets flat_neighbors i next_d x st) = queue_len st + 1"
  "\<not> next_d < distances_to_j st (flat_neighbors x) \<Longrightarrow>
     distances_to_j (nsi_betweenness_neighbor w offsets flat_neighbors i next_d x st) =
       distances_to_j st \<and>
     queue (nsi_betweenness_neighbor w offsets flat_neighbors i next_d x st) = queue st \<and>
     queue_len (nsi_betweenness_neighbor w offsets flat_neighbors i next_d x st) = queue_len st"
  by (simp_all add: nsi_betweenness_neighbor_def Let_def)

lemma queued_cong:
  assumes "queue st' = queue st" "queue_len st' = queue_len st"
  shows "queued st' = queued st"
  using assms by (simp add: queued_def)

lemma queued_enqueue:
  assumes "queue st' = (queue st)(queue_len st := l)" "queue_len st' = queue_len st + 1"
    and "0 \<le> queue_len st"
  shows "queued st' = queued st @ [l]"
proof -
  have "map ((queue st)(queue_len st := l)) (py_range 0 (queue_len st)) =
        map (queue st) (py_range 0 (queue_len st))"
    by (rule map_cong) auto
  then show ?thesis
    using assms by (simp add: queued_def py_range_snoc)
qed

lemma forward_inv_cong:
  assumes "distances_to_j st' = distances_to_j st" "queue st' = queue st"
    "queue_len st' = queue_len st" "qi st' = qi st"
  shows "forward_inv N k offsets flat_neighbors j st' = forward_inv N k offsets flat_neighbors j st"
  using assms queued_cong [OF assms(2,3)] by (simp add: forward_inv_def)

lemma pass_inv_cong:
  assumes "distances_to_j st' = distances_to_j st" "queue st' = queue st"
    "queue_len st' = queue_len st" "qi st' = qi st"
  shows "pass_inv N k offsets flat_neighbors j q i nd st' = pass_inv N k offsets flat_neighbors j q i nd st"
  using assms queued_cong [OF assms(2,3)] forward_inv_cong [OF assms]
  by (simp add: pass_inv_def)

lemma neighbor_pass_inv:
  assumes inv: "pass_inv N k offsets flat_neighbors j q i nd st"
    and x: "offsets i \<le> x" "x < offsets i + k i"
    and l: "0 \<le> flat_neighbors x" "flat_neighbors x < N"
  shows "pass_inv N k offsets flat_neighbors j q i nd
           (nsi_betweenness_neighbor w offsets flat_neighbors i nd x st)"
proof (cases "nd < distances_to_j st (flat_neighbors x)")
  case False
  note f = neighbor_fields(1,3) [where w = w and offsets = offsets and flat_neighbors = flat_neighbors and i = i and next_d = nd and x = x and st = st]
  have "pass_inv N k offsets flat_neighbors j q i nd
           (nsi_betweenness_neighbor w offsets flat_neighbors i nd x st) =
        pass_inv N k offsets flat_neighbors j q i nd st"
    by (rule pass_inv_cong) (use f False in simp_all)
  then show ?thesis using inv by simp
next
  case True
  let ?l = "flat_neighbors x"
  let ?st = "nsi_betweenness_neighbor w offsets flat_neighbors i nd x st"
  let ?D = "distances_to_j st" and ?Q = "queued st"
  note f = neighbor_fields(1,2) [where w = w and offsets = offsets and flat_neighbors = flat_neighbors and i = i and next_d = nd and x = x and st = st]
  have D': "distances_to_j ?st = ?D(?l := nd)"
    and q': "queue ?st = (queue st)(queue_len st := ?l)"
    and ql': "queue_len ?st = queue_len st + 1"
    and qi': "qi ?st = qi st"
    using f True by simp_all
  have fw: "forward_inv N k offsets flat_neighbors j st"
    and qq: "qi st = q" "q < queue_len st" "queue st q = i" "?D i + 1 = nd"
    and bound: "\<forall>l\<in>set ?Q. ?D l \<le> nd"
    using inv by (simp_all add: pass_inv_def)
  have q0: "0 \<le> q" and sub: "set ?Q \<subseteq> {0..<N}" and dis: "distinct ?Q"
    and srt: "sorted (map ?D ?Q)"
    and sent: "\<forall>l\<in>{0..<N}. l \<in> set ?Q \<or> ?D l = 2 * N"
    and rch: "\<forall>l\<in>set ?Q. reachable k offsets flat_neighbors j l"
    using fw qq(1) by (simp_all add: forward_inv_def)
  have notin: "?l \<notin> set ?Q" using bound True by auto
  have iq: "i \<in> set ?Q" using queued_mem [OF q0 qq(2)] qq(3) by simp
  have il: "i \<noteq> ?l" using iq notin by auto
  have Q': "queued ?st = ?Q @ [?l]"
    by (rule queued_enqueue [OF q' ql']) (use q0 qq(2) in simp)
  have same: "(?D(?l := nd)) m = ?D m" if "m \<in> set ?Q" for m
    using that notin by auto
  have mapD: "map (?D(?l := nd)) ?Q = map ?D ?Q"
    by (rule map_cong) (use same in auto)
  have qq': "queue ?st q = i" using qq(2,3) by (simp add: q')
  have Di: "distances_to_j ?st i + 1 = nd" using il qq(4) by (simp add: D')
  have bound': "\<forall>m\<in>set (queued ?st). distances_to_j ?st m \<le> nd"
    using bound same by (auto simp: Q' D')
  have srt': "sorted (map (distances_to_j ?st) (queued ?st))"
    using srt bound by (simp add: Q' D' mapD sorted_append)
  have rl: "reachable k offsets flat_neighbors j ?l"
  proof (rule reachable.neighbor)
    show "reachable k offsets flat_neighbors j i" using rch iq by blast
    show "offsets i \<le> x" "x < offsets i + k i" by (rule x)+
  qed
  have fw': "forward_inv N k offsets flat_neighbors j ?st"
    unfolding forward_inv_def
  proof (intro conjI)
    show "0 \<le> qi ?st" using q0 qq(1) by (simp add: qi')
    show "qi ?st \<le> queue_len ?st" using qq(1,2) by (simp add: qi' ql')
    show "set (queued ?st) \<subseteq> {0..<N}" using sub l by (simp add: Q')
    show "distinct (queued ?st)" using dis notin by (simp add: Q')
    show "sorted (map (distances_to_j ?st) (queued ?st))" by (rule srt')
    show "qi ?st < queue_len ?st \<longrightarrow>
            (\<forall>l\<in>set (queued ?st). distances_to_j ?st l \<le> distances_to_j ?st (queue ?st (qi ?st)) + 1)"
      using bound' Di qq' qq(1) by (simp add: qi')
    show "\<forall>l\<in>{0..<N}. l \<in> set (queued ?st) \<or> distances_to_j ?st l = 2 * N"
      using sent by (auto simp: Q' D')
    show "\<forall>l\<in>set (queued ?st). reachable k offsets flat_neighbors j l"
      using rch rl by (simp add: Q')
  qed
  show ?thesis
    unfolding pass_inv_def
    using fw' qq(1,2) qq' Di bound' by (simp add: qi' ql')
qed

lemma neighbors_pass_inv:
  assumes "pass_inv N k offsets flat_neighbors j q i nd st"
    and "\<forall>x\<in>set xs. offsets i \<le> x \<and> x < offsets i + k i \<and> 0 \<le> flat_neighbors x \<and> flat_neighbors x < N"
  shows "pass_inv N k offsets flat_neighbors j q i nd
           (fold (nsi_betweenness_neighbor w offsets flat_neighbors i nd) xs st)"
  using assms
proof (induction xs arbitrary: st)
  case Nil
  then show ?case by simp
next
  case (Cons x xs)
  have "pass_inv N k offsets flat_neighbors j q i nd
          (nsi_betweenness_neighbor w offsets flat_neighbors i nd x st)"
    by (rule neighbor_pass_inv [OF Cons.prems(1)]) (use Cons.prems(2) in simp_all)
  from Cons.IH [OF this] Cons.prems(2) show ?case by simp
qed

lemma queued_qi_update [simp]: "queued (st\<lparr>qi := v\<rparr>) = queued st"
  by (simp add: queued_def)

lemma forward_inv_queue_len:
  assumes "forward_inv N k offsets flat_neighbors j st" "0 \<le> N"
  shows "queue_len st \<le> N"
proof -
  have sub: "set (queued st) \<subseteq> {0..<N}" and dis: "distinct (queued st)"
    and nn: "0 \<le> queue_len st"
    using assms(1) by (simp_all add: forward_inv_def)
  have "length (queued st) = card (set (queued st))" using dis by (simp add: distinct_card)
  also have "\<dots> \<le> card {0..<N}" by (rule card_mono) (use sub in simp_all)
  finally have "nat (queue_len st) \<le> nat N" by simp
  then show ?thesis using nn assms(2) by simp
qed

lemma pass_forward_inv:
  assumes inv: "forward_inv N k offsets flat_neighbors j st"
    and run: "qi st < queue_len st"
    and wf: "neighbor_structure N k offsets flat_neighbors"
  shows "\<exists>st'. nsi_betweenness_pass w k offsets flat_neighbors st = Inr st' \<and>
               forward_inv N k offsets flat_neighbors j st' \<and> qi st' = qi st + 1"
proof -
  define q where "q = qi st"
  define i where "i = queue st q"
  define nd where "nd = distances_to_j st i + 1"
  define st2 where "st2 = fold (nsi_betweenness_neighbor w offsets flat_neighbors i nd)
                            (py_range (offsets i) (offsets i + k i)) st"
  have q0: "0 \<le> q" and sub: "set (queued st) \<subseteq> {0..<N}"
    and near: "\<forall>l\<in>set (queued st). distances_to_j st l \<le> distances_to_j st (queue st (qi st)) + 1"
    using inv run by (simp_all add: forward_inv_def q_def)
  have iN: "i \<in> {0..<N}"
    using queued_mem [OF q0, of st] run sub by (auto simp: i_def q_def)
  then have i1: "i \<noteq> - 1" by auto
  have start: "pass_inv N k offsets flat_neighbors j q i nd st"
    unfolding pass_inv_def using inv run near by (simp add: q_def i_def nd_def)
  have xs: "\<forall>x\<in>set (py_range (offsets i) (offsets i + k i)).
              offsets i \<le> x \<and> x < offsets i + k i \<and> 0 \<le> flat_neighbors x \<and> flat_neighbors x < N"
    using wf iN unfolding neighbor_structure_def by auto
  have fin: "pass_inv N k offsets flat_neighbors j q i nd st2"
    unfolding st2_def by (rule neighbors_pass_inv [OF start xs])
  have fw: "forward_inv N k offsets flat_neighbors j st2"
    and qq: "qi st2 = q" "q < queue_len st2" "queue st2 q = i" "distances_to_j st2 i + 1 = nd"
    and bound: "\<forall>l\<in>set (queued st2). distances_to_j st2 l \<le> nd"
    using fin by (simp_all add: pass_inv_def)
  have srt: "sorted (map (distances_to_j st2) (queued st2))"
    using fw by (simp add: forward_inv_def)
  have res: "nsi_betweenness_pass w k offsets flat_neighbors st = Inr (st2\<lparr>qi := q + 1\<rparr>)"
    using i1 qq(1)
    by (simp add: nsi_betweenness_pass_def Let_def q_def [symmetric] i_def [symmetric]
          nd_def [symmetric] st2_def [symmetric])
  have nxt: "\<forall>l\<in>set (queued st2). distances_to_j st2 l \<le> distances_to_j st2 (queue st2 (q + 1)) + 1"
    if "q + 1 < queue_len st2"
  proof -
    have "map (distances_to_j st2) (queued st2) ! nat q \<le>
          map (distances_to_j st2) (queued st2) ! nat (q + 1)"
      by (rule sorted_nth_mono [OF srt]) (use q0 that in simp_all)
    moreover have "map (distances_to_j st2) (queued st2) ! nat q = distances_to_j st2 i"
      using q0 qq(2,3) by (simp add: queued_nth)
    moreover have "map (distances_to_j st2) (queued st2) ! nat (q + 1) =
                   distances_to_j st2 (queue st2 (q + 1))"
      using q0 that by (simp add: queued_nth)
    ultimately have "nd \<le> distances_to_j st2 (queue st2 (q + 1)) + 1" using qq(4) by simp
    then show ?thesis using bound by auto
  qed
  have "forward_inv N k offsets flat_neighbors j (st2\<lparr>qi := q + 1\<rparr>)"
    using fw qq(1,2) q0 nxt unfolding forward_inv_def by simp
  then show ?thesis using res by (simp add: q_def)
qed

lemma init_forward_inv:
  assumes "0 \<le> j" "j < N"
  shows "forward_inv N k offsets flat_neighbors j
           (nsi_betweenness_init N w j betweenness excess is_source predecessors)"
proof -
  let ?st = "nsi_betweenness_init N w j betweenness excess is_source predecessors"
  have f: "distances_to_j ?st = (\<lambda>_. 2 * N)(j := 0)" "queue ?st = (\<lambda>_. 0)(0 := j)"
    "queue_len ?st = 1" "qi ?st = 0"
    by (simp_all add: nsi_betweenness_init_def Let_def split: prod.splits)
  have Q: "queued ?st = [j]"
    by (simp add: queued_def f py_range_def)
  show ?thesis
    unfolding forward_inv_def Q f using assms
    by (auto intro: reachable.source)
qed

lemma forward_terminates:
  assumes "0 \<le> j" "j < N" and wf: "neighbor_structure N k offsets flat_neighbors"
  shows "\<exists>st. nsi_betweenness_forward N w k j betweenness excess offsets flat_neighbors
                 is_source predecessors = Some (Inr st) \<and>
              forward_inv N k offsets flat_neighbors j st \<and> qi st = queue_len st"
proof -
  let ?b = "\<lambda>r. case r of Inl _ \<Rightarrow> False | Inr st \<Rightarrow> qi st < queue_len st"
  let ?c = "\<lambda>r. case r of Inl e \<Rightarrow> Inl e
                        | Inr st \<Rightarrow> nsi_betweenness_pass w k offsets flat_neighbors st"
  let ?P = "\<lambda>r. case r of Inl _ \<Rightarrow> False
                        | Inr st \<Rightarrow> forward_inv N k offsets flat_neighbors j st"
  let ?f = "\<lambda>r. case r of Inl _ \<Rightarrow> 0 | Inr st \<Rightarrow> nat (N - qi st)"
  let ?s = "Inr (nsi_betweenness_init N w j betweenness excess is_source predecessors)
              :: py_error + bfs_state"
  have N0: "0 \<le> N" using assms(1,2) by simp
  have step: "?P (?c r) \<and> ?f (?c r) < ?f r" if "?P r" "?b r" for r
  proof (cases r)
    case (Inl e)
    then show ?thesis using that by simp
  next
    case (Inr st)
    then have inv: "forward_inv N k offsets flat_neighbors j st" and run: "qi st < queue_len st"
      using that by simp_all
    obtain st' where st': "nsi_betweenness_pass w k offsets flat_neighbors st = Inr st'"
        "forward_inv N k offsets flat_neighbors j st'" "qi st' = qi st + 1"
      using pass_forward_inv [OF inv run wf] by blast
    have "queue_len st \<le> N" by (rule forward_inv_queue_len [OF inv N0])
    then have "nat (N - qi st') < nat (N - qi st)" using run st'(3) by simp
    then show ?thesis using Inr st' by simp
  qed
  have init: "?P ?s" using init_forward_inv [OF assms(1,2)] by simp
  obtain t where t: "while_option ?b ?c ?s = Some t"
    using measure_while_option_Some [of ?P ?b ?c ?f ?s] step init by blast
  have Pt: "?P t"
    by (rule while_option_rule [where P = ?P, OF _ t init]) (use step in blast)
  have nb: "\<not> ?b t" by (rule while_option_stop [OF t])
  obtain st where st: "t = Inr st" using Pt by (cases t) simp_all
  have inv: "forward_inv N k offsets flat_neighbors j st" using Pt st by simp
  then have "qi st \<le> queue_len st" by (simp add: forward_inv_def)
  then have "qi st = queue_len st" using nb st by simp
  then show ?thesis using t st inv by (simp add: nsi_betweenness_forward_def)
qed

text \<open>
  Claim C7.  For a source \<open>j\<close> in range and a well-formed neighbour structure, the
  forward phase ends without error, with every queued node dequeued, and at its end:
  the recorded distances of the nodes, in the order in which they were appended to the
  queue, are non-decreasing; no node is in the queue twice; and every node that is not
  reachable from \<open>j\<close> still has the distance \<open>2 N\<close> and is not in the queue.
\<close>

theorem forward_phase_queue:
  assumes "0 \<le> j" and "j < N" and "neighbor_structure N k offsets flat_neighbors"
  shows "\<exists>st. nsi_betweenness_forward N w k j betweenness excess offsets flat_neighbors
                 is_source predecessors = Some (Inr st) \<and>
              sorted (map (distances_to_j st) (queued st)) \<and>
              distinct (queued st) \<and>
              qi st = queue_len st \<and>
              (\<forall>l\<in>{0..<N}. \<not> reachable k offsets flat_neighbors j l \<longrightarrow>
                 distances_to_j st l = 2 * N \<and> l \<notin> set (queued st))"
proof -
  obtain st where st: "nsi_betweenness_forward N w k j betweenness excess offsets flat_neighbors
                 is_source predecessors = Some (Inr st)"
      "forward_inv N k offsets flat_neighbors j st" "qi st = queue_len st"
    using forward_terminates [OF assms] by blast
  have "sorted (map (distances_to_j st) (queued st))" "distinct (queued st)"
    and sent: "\<forall>l\<in>{0..<N}. l \<in> set (queued st) \<or> distances_to_j st l = 2 * N"
    and rch: "\<forall>l\<in>set (queued st). reachable k offsets flat_neighbors j l"
    using st(2) by (simp_all add: forward_inv_def)
  moreover have "\<forall>l\<in>{0..<N}. \<not> reachable k offsets flat_neighbors j l \<longrightarrow>
                 distances_to_j st l = 2 * N \<and> l \<notin> set (queued st)"
    using sent rch by blast
  ultimately show ?thesis using st(1,3) by blast
qed

text \<open>
  Claim C7 on three nodes, 0 and 1 linked and 2 isolated, with source 0: the queue is
  0, 1 with distances 0, 1, and node 2, which no chain of neighbours reaches, keeps
  the distance 6.
\<close>

theorem forward_phase_queue_witness:
  "map_option (map_sum id (\<lambda>st. (queued st, map (distances_to_j st) [0, 1, 2], qi st)))
     (nsi_betweenness_forward 3 (\<lambda>_. 1) pair_degree 0 (\<lambda>_. 0) (\<lambda>_. 0) pair_offsets pair_neighbors
        (\<lambda>_. 1) (\<lambda>_. 0)) = Some (Inr ([0, 1], [0, 1, 6], 2)) \<and>
   \<not> reachable pair_degree pair_offsets pair_neighbors 0 2"
proof -
  have run: "map_option (map_sum id (\<lambda>st. (queued st, map (distances_to_j st) [0, 1, 2], qi st)))
     (nsi_betweenness_forward 3 (\<lambda>_. 1) pair_degree 0 (\<lambda>_. 0) (\<lambda>_. 0) pair_offsets pair_neighbors
        (\<lambda>_. 1) (\<lambda>_. 0)) = Some (Inr ([0, 1], [0, 1, 6], 2))"
    by code_simp
  have wf: "neighbor_structure 3 pair_degree pair_offsets pair_neighbors"
    by (auto simp: neighbor_structure_def pair_degree_def pair_offsets_def pair_neighbors_def)
  obtain st where st:
      "nsi_betweenness_forward 3 (\<lambda>_. 1) pair_degree 0 (\<lambda>_. 0) (\<lambda>_. 0) pair_offsets pair_neighbors
         (\<lambda>_. 1) (\<lambda>_. 0) = Some (Inr st)"
      "\<forall>l\<in>{0..<3}. \<not> reachable pair_degree pair_offsets pair_neighbors 0 l \<longrightarrow>
          distances_to_j st l = 2 * 3 \<and> l \<notin> set (queued st)"
      "\<forall>l\<in>{0..<3}. l \<in> set (queued st) \<longrightarrow> reachable pair_degree pair_offsets pair_neighbors 0 l"
    using forward_phase_queue [of 0 3 pair_degree pair_offsets pair_neighbors "\<lambda>_. 1" "\<lambda>_. 0" "\<lambda>_. 0"
        "\<lambda>_. 1" "\<lambda>_. 0", OF _ _ wf]
    by auto
  have only: "l = 0 \<or> l = 1" if "reachable pair_degree pair_offsets pair_neighbors 0 l" for l
    using that
  proof (induction rule: reachable.induct)
    case source
    show ?case by simp
  next
    case (neighbor i x)
    then show ?case
      by (auto simp: pair_degree_def pair_offsets_def pair_neighbors_def split: if_splits)
  qed
  have "\<not> reachable pair_degree pair_offsets pair_neighbors 0 2"
    using only [of 2] by auto
  with run show ?thesis by simp
qed

end
